theory Spec2Isabelle
  imports Complex_Main "HOL-Library.Log_Nat" "HOL-Library.AList"
begin

section \<open>Python preliminaries\<close>

text \<open>
  Exceptions of the Python run-time that the modelled functions can raise. A function
  that can raise returns \<open>py_error + 'a\<close>, with \<open>Inl\<close> for the exception.
\<close>

datatype py_error = ZeroDivisionError | KeyError | ValueError | IndexError | OverflowError

text \<open>\<^verbatim>\<open>range(n)\<close> for a Python int \<open>n\<close>: empty when \<open>n \<le> 0\<close>.\<close>

definition py_range :: "int \<Rightarrow> int list" where
  "py_range n = map int [0..<nat n]"

text \<open>
  A \<^verbatim>\<open>for x in xs: body\<close> loop over a state; an exception raised by the body leaves
  the loop at once.
\<close>

fun for_loop :: "'a list \<Rightarrow> ('a \<Rightarrow> 's \<Rightarrow> py_error + 's) \<Rightarrow> 's \<Rightarrow> py_error + 's" where
  "for_loop [] body s = Inr s"
| "for_loop (x # xs) body s =
     (case body x s of Inl e \<Rightarrow> Inl e | Inr s' \<Rightarrow> for_loop xs body s')"

subsection \<open>Floats\<close>

text \<open>
  A Python float, and a cell of a numpy array of \<^verbatim>\<open>dtype=float\<close>, is an IEEE 754
  binary64 number: a finite value, an infinity or a NaN. A finite double is
  represented by its value (so the two zeros are one value).
\<close>

datatype float64 = Finite real | PInf | NInf | NaN

text \<open>The integer nearest to \<open>q\<close>, the even one of the two when \<open>q\<close> is half-way.\<close>

definition round_half_even :: "real \<Rightarrow> int" where
  "round_half_even q =
     (let f = \<lfloor>q\<rfloor>; d = q - real_of_int f in
      if d < 1 / 2 then f
      else if 1 / 2 < d then f + 1
      else if even f then f else f + 1)"

text \<open>
  Rounding of a real to binary64, to nearest with ties to even: 53 significant
  bits, the exponent of the leading bit not below \<open>- 1022\<close> (below it the spacing of
  the subnormal numbers, \<open>2 ^ - 1074\<close>, is kept), and an infinity when the rounded
  value reaches \<open>2 ^ 1024\<close>.
\<close>

definition round64 :: "real \<Rightarrow> float64" where
  "round64 x =
     (if x = 0 then Finite 0
      else
        let e = max \<lfloor>log 2 \<bar>x\<bar>\<rfloor> (- 1022);
            u = 2 powr (real_of_int e - 52);
            y = real_of_int (round_half_even (x / u)) * u
        in if 2 ^ 1024 \<le> y then PInf
           else if y \<le> - (2 ^ 1024) then NInf
           else Finite y)"

text \<open>
  The sum of two doubles is the rounded sum of their values; it overflows to an
  infinity without raising.
\<close>

fun fadd :: "float64 \<Rightarrow> float64 \<Rightarrow> float64" where
  "fadd (Finite x) (Finite y) = round64 (x + y)"
| "fadd NaN b = NaN"
| "fadd a NaN = NaN"
| "fadd PInf NInf = NaN"
| "fadd NInf PInf = NaN"
| "fadd PInf b = PInf"
| "fadd a PInf = PInf"
| "fadd NInf b = NInf"
| "fadd a NInf = NInf"

text \<open>
  The conversion of a Python int to a float, as in \<^verbatim>\<open>float(v)\<close> and in the sum of a float
  and an int: the nearest double, OverflowError when the int is too large for one.
\<close>

definition float_of_int :: "int \<Rightarrow> py_error + float64" where
  "float_of_int v =
     (case round64 (real_of_int v) of
        Finite y \<Rightarrow> Inr (Finite y)
      | PInf \<Rightarrow> Inl OverflowError
      | NInf \<Rightarrow> Inl OverflowError
      | NaN \<Rightarrow> Inl OverflowError)"


text \<open>
  \<^verbatim>\<open>int(f)\<close> on a float truncates towards zero; it raises OverflowError for an
  infinity and ValueError for a NaN.
\<close>

fun py_int :: "float64 \<Rightarrow> py_error + int" where
  "py_int (Finite f) = Inr (if 0 \<le> f then \<lfloor>f\<rfloor> else \<lceil>f\<rceil>)"
| "py_int PInf = Inl OverflowError"
| "py_int NInf = Inl OverflowError"
| "py_int NaN = Inl ValueError"

text \<open>
  For a positive int too large for a double, \<^verbatim>\<open>math.log2\<close> splits the int into a
  mantissa in \<open>[1/2, 1)\<close>, rounded to 53 bits (ties to even), and a binary exponent:
  when the rounding carries the mantissa to 1, it is \<open>1/2\<close> with the exponent one more.
\<close>

definition frexp_int :: "int \<Rightarrow> real \<times> int" where
  "frexp_int x =
     (let e = int (floorlog 2 (nat x));
          m = real_of_int (round_half_even (real_of_int x / 2 powr (real_of_int e - 53))) / 2 ^ 53
      in if m = 1 then (1 / 2, e + 1) else (m, e))"

text \<open>
  \<^verbatim>\<open>math.log2\<close> on a Python int raises ValueError for a non-positive argument. It
  converts the int to a double and returns the logarithm of that double, which is
  itself a double: the C library's \<^verbatim>\<open>log2\<close> is taken to return the double nearest to
  the logarithm (\<open>log2_double\<close>, applied to positive finite doubles only). When the
  conversion overflows, the result is computed as \<^verbatim>\<open>log2(m) + log2(2.0) * e\<close> from the
  mantissa and the exponent of the int.
\<close>

fun log2_double :: "float64 \<Rightarrow> float64" where
  "log2_double (Finite d) = round64 (log 2 d)"
| "log2_double f = f"

definition math_log2 :: "int \<Rightarrow> py_error + float64" where
  "math_log2 x =
     (if x \<le> 0 then Inl ValueError
      else
        (case float_of_int x of
           Inr d \<Rightarrow> Inr (log2_double d)
         | Inl err \<Rightarrow>
             (case frexp_int x of
                (m, e) \<Rightarrow> Inr (fadd (round64 (log 2 m)) (round64 (real_of_int e))))))"

section \<open>swing\_heatmap.py: partner selection and volume matrix\<close>

text \<open>
  \<^verbatim>\<open>rho(step)\<close>: the loop over \<^verbatim>\<open>range(step + 1)\<close> adds \<^verbatim>\<open>1 << i\<close> for even \<open>i\<close> and
  subtracts it for odd \<open>i\<close>.
\<close>

definition rho :: "int \<Rightarrow> int" where
  "rho step =
     fold (\<lambda>i total. total + (if i mod 2 = 0 then push_bit (nat i) 1 else - push_bit (nat i) 1))
       (py_range (step + 1)) 0"

text \<open>
  \<^verbatim>\<open>pi(rank, step, world_size)\<close>. Python's \<^verbatim>\<open>%\<close> on ints is the floored modulo, which
  is \<open>mod\<close> on \<open>int\<close>; it raises ZeroDivisionError for a zero modulus. (The name \<open>pi\<close>
  is taken by the real constant, hence the suffix.)
\<close>

definition pi_partner :: "int \<Rightarrow> int \<Rightarrow> int \<Rightarrow> py_error + int" where
  "pi_partner rank step world_size =
     (let offset = rho step in
      if rank mod 2 = 0 then
        (if world_size = 0 then Inl ZeroDivisionError else Inr ((rank + offset) mod world_size))
      else
        (if world_size = 0 then Inl ZeroDivisionError else Inr ((rank - offset) mod world_size)))"

text \<open>\<^verbatim>\<open>swing_steps(world_size)\<close>; \<^verbatim>\<open>&\<close> binds tighter than \<^verbatim>\<open>==\<close>.\<close>

definition swing_steps :: "int \<Rightarrow> py_error + int" where
  "swing_steps world_size =
     (if world_size < 2 then Inr 0
      else if and world_size (world_size - 1) = 0 then
        (case math_log2 world_size of
           Inl e \<Rightarrow> Inl e
         | Inr l \<Rightarrow> py_int l)
      else
        (case math_log2 world_size of
           Inl e \<Rightarrow> Inl e
         | Inr l \<Rightarrow> (case py_int l of Inl e \<Rightarrow> Inl e | Inr k \<Rightarrow> Inr (k + 1))))"








section \<open>torus\_round\_tables.py: the ring schedule simulator\<close>

text \<open>
  A chunk is the Python dict \<^verbatim>\<open>{"idx": i, "contributors": {...}}\<close>. Chunks and
  dicts are objects that the code shares and updates in place, so they live in a
  store and are referred to by address: \<open>chunk_heap\<close> holds the chunk objects,
  \<open>ledger_heap\<close> the per-process dicts from chunk index to chunk (a dict is an
  association list in insertion order, as \<^verbatim>\<open>items()\<close> iterates it), and
  \<open>last_heap\<close> the \<^verbatim>\<open>last_received\<close> dicts. Each heap has the next free address;
  the addresses below it are the objects created so far.
\<close>

record chunk =
  idx :: int
  contributors :: "int set"

record store =
  chunk_heap :: "nat \<Rightarrow> chunk"
  chunk_next :: nat
  ledger_heap :: "nat \<Rightarrow> (int \<times> nat) list"
  ledger_next :: nat
  last_heap :: "nat \<Rightarrow> (int \<rightharpoonup> int)"
  last_next :: nat

definition empty_store :: store where
  "empty_store =
     \<lparr>chunk_heap = (\<lambda>_. \<lparr>idx = 0, contributors = {}\<rparr>), chunk_next = 0,
      ledger_heap = (\<lambda>_. []), ledger_next = 0,
      last_heap = (\<lambda>_. Map.empty), last_next = 0\<rparr>"

definition new_chunk :: "chunk \<Rightarrow> store \<Rightarrow> nat \<times> store" where
  "new_chunk c st =
     (chunk_next st,
      st\<lparr>chunk_heap := (chunk_heap st)(chunk_next st := c), chunk_next := Suc (chunk_next st)\<rparr>)"

definition new_ledger :: "(int \<times> nat) list \<Rightarrow> store \<Rightarrow> nat \<times> store" where
  "new_ledger l st =
     (ledger_next st,
      st\<lparr>ledger_heap := (ledger_heap st)(ledger_next st := l), ledger_next := Suc (ledger_next st)\<rparr>)"

definition new_last :: "(int \<rightharpoonup> int) \<Rightarrow> store \<Rightarrow> nat \<times> store" where
  "new_last m st =
     (last_next st,
      st\<lparr>last_heap := (last_heap st)(last_next st := m), last_next := Suc (last_next st)\<rparr>)"

text \<open>\<^verbatim>\<open>copy.deepcopy(chunk)\<close>: a new chunk object with the same contents.\<close>

definition deepcopy_chunk :: "nat \<Rightarrow> store \<Rightarrow> nat \<times> store" where
  "deepcopy_chunk a st = new_chunk (chunk_heap st a) st"

text \<open>
  What travels in a round: \<^verbatim>\<open>transmissions[send_to] = {"sender", "chunk_idx", "chunk"}\<close>,
  the chunk by reference.
\<close>

record transmission =
  sender :: int
  chunk_idx :: int
  chunk_ref :: nat

text \<open>
  The state of the first loop of a round: the store, the \<^verbatim>\<open>transmissions\<close> dict and
  \<^verbatim>\<open>rows\<close>. Of a row only \<^verbatim>\<open>row["process"]\<close> is kept, which the second loop reads;
  the other fields are labels and byte counts that only the renderer reads.
\<close>

type_synonym send_state = "store \<times> (int \<rightharpoonup> transmission) \<times> int list"

subsection \<open>Phase 1: reduce-scatter\<close>

text \<open>
  The comprehension that builds \<^verbatim>\<open>holdings\<close>: for every rank a new chunk
  \<^verbatim>\<open>{"idx": r, "contributors": {r}}\<close> in a new dict \<^verbatim>\<open>{r: chunk}\<close>. The outer dict
  maps the rank to that dict; it is never updated afterwards.
\<close>

definition rs_init_holdings :: "int \<Rightarrow> store \<Rightarrow> (int \<times> nat) list \<times> store" where
  "rs_init_holdings num_procs st =
     fold (\<lambda>r (holdings, st).
             let (a, st1) = new_chunk \<lparr>idx = r, contributors = {r}\<rparr> st;
                 (d, st2) = new_ledger [(r, a)] st1
             in (AList.update r d holdings, st2))
       (py_range num_procs) ([], st)"

text \<open>The body of the first loop (lines 173-192): the send is a \<^verbatim>\<open>pop\<close>.\<close>

definition rs_send :: "int \<Rightarrow> int \<Rightarrow> (int \<times> nat) list \<Rightarrow> int \<Rightarrow> send_state \<Rightarrow> py_error + send_state" where
  "rs_send num_procs step holdings r s =
     (case s of (st, transmissions, rows) \<Rightarrow>
        (let send_to = (r + 1) mod num_procs;
             send_idx = (r - step) mod num_procs
         in (case map_of holdings r of
               None \<Rightarrow> Inl KeyError
             | Some d \<Rightarrow>
                 (case map_of (ledger_heap st d) send_idx of
                    None \<Rightarrow> Inl KeyError
                  | Some a \<Rightarrow>
                      Inr (st\<lparr>ledger_heap := (ledger_heap st)(d := AList.delete send_idx (ledger_heap st d))\<rparr>,
                           transmissions(send_to \<mapsto> \<lparr>sender = r, chunk_idx = send_idx, chunk_ref = a\<rparr>),
                           rows @ [r])))))"

text \<open>
  The body of the second loop (lines 194-201): the receiver is added to the
  contributors of the chunk object that arrived, and the chunk is stored under
  \<^verbatim>\<open>recv_idx\<close>.
\<close>

definition rs_recv :: "int \<Rightarrow> int \<Rightarrow> (int \<times> nat) list \<Rightarrow> nat \<Rightarrow> (int \<rightharpoonup> transmission) \<Rightarrow> int \<Rightarrow> store \<Rightarrow> py_error + store" where
  "rs_recv num_procs step holdings last_received transmissions r st =
     (let recv_idx = (r - step - 1) mod num_procs
      in (case transmissions r of
            None \<Rightarrow> Inl KeyError
          | Some incoming \<Rightarrow>
              (let a = chunk_ref incoming;
                   c = chunk_heap st a;
                   st1 = st\<lparr>chunk_heap := (chunk_heap st)(a := c\<lparr>contributors := insert r (contributors c)\<rparr>)\<rparr>
               in (case map_of holdings r of
                     None \<Rightarrow> Inl KeyError
                   | Some d \<Rightarrow>
                       Inr (st1\<lparr>ledger_heap := (ledger_heap st1)(d := AList.update recv_idx a (ledger_heap st1 d)),
                                 last_heap := (last_heap st1)(last_received := (last_heap st1 last_received)(r \<mapsto> recv_idx))\<rparr>)))))"

text \<open>
  One round: all sends, then all receives. The call of \<^verbatim>\<open>render_step\<close> that ends the
  round draws the rows and writes an image file; it reads the rows only and is not
  part of the model.
\<close>

definition rs_round :: "int \<Rightarrow> (int \<times> nat) list \<Rightarrow> nat \<Rightarrow> int \<Rightarrow> store \<Rightarrow> py_error + store" where
  "rs_round num_procs holdings last_received step st =
     (case for_loop (py_range num_procs) (rs_send num_procs step holdings) (st, Map.empty, []) of
        Inl e \<Rightarrow> Inl e
      | Inr (st1, transmissions, rows) \<Rightarrow>
          for_loop rows (rs_recv num_procs step holdings last_received transmissions) st1)"

text \<open>
  The state before the first round: \<^verbatim>\<open>vector_size // num_procs\<close> raises for zero
  processes; then \<^verbatim>\<open>holdings\<close> and \<^verbatim>\<open>last_received = {r: r}\<close> are created in a
  store that starts empty.
\<close>

definition rs_init :: "int \<Rightarrow> int \<Rightarrow> py_error + (store \<times> (int \<times> nat) list \<times> nat)" where
  "rs_init num_procs vector_size =
     (if num_procs = 0 then Inl ZeroDivisionError
      else
        let (holdings, st1) = rs_init_holdings num_procs empty_store;
            (last_received, st2) = new_last (map_of (map (\<lambda>r. (r, r)) (py_range num_procs))) st1
        in Inr (st2, holdings, last_received))"

text \<open>
  The rounds \<open>steps\<close> of the phase, run from the initial state; the result is the
  store with \<^verbatim>\<open>holdings\<close> and the address of \<^verbatim>\<open>last_received\<close>.
\<close>

definition rs_run :: "int \<Rightarrow> int \<Rightarrow> int list \<Rightarrow> py_error + (store \<times> (int \<times> nat) list \<times> nat)" where
  "rs_run num_procs vector_size steps =
     (case rs_init num_procs vector_size of
        Inl e \<Rightarrow> Inl e
      | Inr (st, holdings, last_received) \<Rightarrow>
          (case for_loop steps (rs_round num_procs holdings last_received) st of
             Inl e \<Rightarrow> Inl e
           | Inr st' \<Rightarrow> Inr (st', holdings, last_received)))"

text \<open>\<^verbatim>\<open>simulate_reduce_scatter\<close>: the rounds \<^verbatim>\<open>range(num_procs - 1)\<close>.\<close>

definition simulate_reduce_scatter :: "int \<Rightarrow> int \<Rightarrow> py_error + (store \<times> (int \<times> nat) list \<times> nat)" where
  "simulate_reduce_scatter num_procs vector_size =
     rs_run num_procs vector_size (py_range (num_procs - 1))"

text \<open>The state of the phase after its first \<open>k\<close> rounds only.\<close>

definition reduce_scatter_after :: "int \<Rightarrow> int \<Rightarrow> nat \<Rightarrow> py_error + (store \<times> (int \<times> nat) list \<times> nat)" where
  "reduce_scatter_after num_procs vector_size k =
     rs_run num_procs vector_size (take k (py_range (num_procs - 1)))"

subsection \<open>Phase 2: allgather\<close>

text \<open>
  The comprehension that copies \<^verbatim>\<open>initial_holdings\<close>: new dicts, and a
  \<^verbatim>\<open>deepcopy\<close> of every chunk.
\<close>

definition copy_ledger :: "(int \<times> nat) list \<Rightarrow> store \<Rightarrow> (int \<times> nat) list \<times> store" where
  "copy_ledger chunks st =
     fold (\<lambda>(i, a) (l, st). let (a', st') = deepcopy_chunk a st in (AList.update i a' l, st'))
       chunks ([], st)"

definition copy_holdings :: "(int \<times> nat) list \<Rightarrow> store \<Rightarrow> (int \<times> nat) list \<times> store" where
  "copy_holdings initial_holdings st =
     fold (\<lambda>(r, d) (holdings, st).
             let (l, st1) = copy_ledger (ledger_heap st d) st;
                 (d', st2) = new_ledger l st1
             in (AList.update r d' holdings, st2))
       initial_holdings ([], st)"

text \<open>
  The body of the first loop (lines 234-254): the chunk under
  \<^verbatim>\<open>last_received[r]\<close> is read, not removed, and a deep copy of it travels.
\<close>

definition ag_send :: "int \<Rightarrow> (int \<times> nat) list \<Rightarrow> nat \<Rightarrow> int \<Rightarrow> send_state \<Rightarrow> py_error + send_state" where
  "ag_send num_procs holdings last_received r s =
     (case s of (st, transmissions, rows) \<Rightarrow>
        (let send_to = (r + 1) mod num_procs
         in (case last_heap st last_received r of
               None \<Rightarrow> Inl KeyError
             | Some send_idx \<Rightarrow>
                 (case map_of holdings r of
                    None \<Rightarrow> Inl KeyError
                  | Some d \<Rightarrow>
                      (case map_of (ledger_heap st d) send_idx of
                         None \<Rightarrow> Inl KeyError
                       | Some a \<Rightarrow>
                           (let (a', st') = deepcopy_chunk a st
                            in Inr (st',
                                    transmissions(send_to \<mapsto> \<lparr>sender = r, chunk_idx = send_idx, chunk_ref = a'\<rparr>),
                                    rows @ [r])))))))"

text \<open>
  The body of the second loop (lines 256-264): the chunk is stored only when its
  index is not in the ledger yet; \<^verbatim>\<open>last_received[r]\<close> is assigned in the dict that
  the caller passed.
\<close>

definition ag_recv :: "(int \<times> nat) list \<Rightarrow> nat \<Rightarrow> (int \<rightharpoonup> transmission) \<Rightarrow> int \<Rightarrow> store \<Rightarrow> py_error + store" where
  "ag_recv holdings last_received transmissions r st =
     (case transmissions r of
        None \<Rightarrow> Inl KeyError
      | Some incoming \<Rightarrow>
          (let recv_chunk = chunk_ref incoming;
               recv_idx = chunk_idx incoming
           in (case map_of holdings r of
                 None \<Rightarrow> Inl KeyError
               | Some d \<Rightarrow>
                   (let st1 = (if map_of (ledger_heap st d) recv_idx = None
                               then st\<lparr>ledger_heap := (ledger_heap st)(d := AList.update recv_idx recv_chunk (ledger_heap st d))\<rparr>
                               else st)
                    in Inr (st1\<lparr>last_heap := (last_heap st1)(last_received := (last_heap st1 last_received)(r \<mapsto> recv_idx))\<rparr>)))))"

definition ag_round :: "int \<Rightarrow> (int \<times> nat) list \<Rightarrow> nat \<Rightarrow> int \<Rightarrow> store \<Rightarrow> py_error + store" where
  "ag_round num_procs holdings last_received step st =
     (case for_loop (py_range num_procs) (ag_send num_procs holdings last_received) (st, Map.empty, []) of
        Inl e \<Rightarrow> Inl e
      | Inr (st1, transmissions, rows) \<Rightarrow>
          for_loop rows (ag_recv holdings last_received transmissions) st1)"

text \<open>
  The rounds \<open>steps\<close> of the phase on the caller's store: the result is the store
  and the function's own \<^verbatim>\<open>holdings\<close>.
\<close>

definition ag_run :: "store \<Rightarrow> int \<Rightarrow> int \<Rightarrow> (int \<times> nat) list \<Rightarrow> nat \<Rightarrow> int list \<Rightarrow> py_error + (store \<times> (int \<times> nat) list)" where
  "ag_run st num_procs vector_size initial_holdings last_received steps =
     (if num_procs = 0 then Inl ZeroDivisionError
      else
        (let (holdings, st1) = copy_holdings initial_holdings st
         in (case for_loop steps (ag_round num_procs holdings last_received) st1 of
               Inl e \<Rightarrow> Inl e
             | Inr st' \<Rightarrow> Inr (st', holdings))))"

text \<open>\<^verbatim>\<open>simulate_allgather\<close>: the rounds \<^verbatim>\<open>range(num_procs - 1)\<close>.\<close>

definition simulate_allgather :: "store \<Rightarrow> int \<Rightarrow> int \<Rightarrow> (int \<times> nat) list \<Rightarrow> nat \<Rightarrow> py_error + (store \<times> (int \<times> nat) list)" where
  "simulate_allgather st num_procs vector_size initial_holdings last_received =
     ag_run st num_procs vector_size initial_holdings last_received (py_range (num_procs - 1))"

text \<open>The state of the phase after its first \<open>k\<close> rounds only.\<close>

definition allgather_after :: "store \<Rightarrow> int \<Rightarrow> int \<Rightarrow> (int \<times> nat) list \<Rightarrow> nat \<Rightarrow> nat \<Rightarrow> py_error + (store \<times> (int \<times> nat) list)" where
  "allgather_after st num_procs vector_size initial_holdings last_received k =
     ag_run st num_procs vector_size initial_holdings last_received (take k (py_range (num_procs - 1)))"

text \<open>\<^verbatim>\<open>main\<close>: phase 1, then phase 2 on its results.\<close>

definition allreduce :: "int \<Rightarrow> int \<Rightarrow> py_error + (store \<times> (int \<times> nat) list \<times> (int \<times> nat) list \<times> nat)" where
  "allreduce num_procs vector_size =
     (case simulate_reduce_scatter num_procs vector_size of
        Inl e \<Rightarrow> Inl e
      | Inr (st, holdings, last_recv) \<Rightarrow>
          (case simulate_allgather st num_procs vector_size holdings last_recv of
             Inl e \<Rightarrow> Inl e
           | Inr (st', holdings') \<Rightarrow> Inr (st', holdings, holdings', last_recv)))"

text \<open>
  Reading a ledger: the contributor set of the chunk that process \<open>r\<close> holds under
  index \<open>i\<close>, if any.
\<close>

definition held :: "store \<Rightarrow> (int \<times> nat) list \<Rightarrow> int \<Rightarrow> int \<Rightarrow> int set option" where
  "held st holdings r i =
     (case map_of holdings r of
        None \<Rightarrow> None
      | Some d \<Rightarrow>
          (case map_of (ledger_heap st d) i of
             None \<Rightarrow> None
           | Some a \<Rightarrow> Some (contributors (chunk_heap st a))))"

text \<open>The chunk indices in the ledger of process \<open>r\<close>, in insertion order.\<close>

definition ledger_keys :: "store \<Rightarrow> (int \<times> nat) list \<Rightarrow> int \<Rightarrow> int list" where
  "ledger_keys st holdings r =
     (case map_of holdings r of None \<Rightarrow> [] | Some d \<Rightarrow> map fst (ledger_heap st d))"

subsection \<open>Closed forms and invariants of the two phases\<close>

text \<open>
  The definitions of this subsection are not code: they describe the states the
  simulation goes through, and the lemmas below prove that the code computes them.

  The ranks \<open>a, a + 1, \<dots>, a + s\<close> modulo \<open>n\<close>: the contributors of chunk \<open>a\<close> after
  \<open>s\<close> rounds of phase 1.
\<close>

definition ring_span :: "int \<Rightarrow> int \<Rightarrow> nat \<Rightarrow> int set" where
  "ring_span n a s = (\<lambda>j. (a + int j) mod n) ` {..s}"

text \<open>The \<^verbatim>\<open>holdings\<close> dict of phase 1: the ledger of rank \<open>r\<close> is at address \<open>r\<close>.\<close>

definition rs_holdings :: "int \<Rightarrow> (int \<times> nat) list" where
  "rs_holdings n = map (\<lambda>r. (int r, r)) [0..<nat n]"

text \<open>
  The store after \<open>s\<close> rounds of phase 1: the chunk of index \<open>a\<close> is the object at
  address \<open>a\<close>, process \<open>r\<close> holds exactly the chunk of index \<open>(r - s) mod n\<close>, and
  that index is \<^verbatim>\<open>last_received[r]\<close>.
\<close>

definition rs_state :: "int \<Rightarrow> nat \<Rightarrow> store" where
  "rs_state n s =
     \<lparr>chunk_heap = (\<lambda>a. if a < nat n then \<lparr>idx = int a, contributors = ring_span n (int a) s\<rparr>
                         else \<lparr>idx = 0, contributors = {}\<rparr>),
      chunk_next = nat n,
      ledger_heap = (\<lambda>d. if d < nat n
                          then [((int d - int s) mod n, nat ((int d - int s) mod n))] else []),
      ledger_next = nat n,
      last_heap = (\<lambda>l. if l = 0
                        then (\<lambda>r. if 0 \<le> r \<and> r < n then Some ((r - int s) mod n) else None)
                        else Map.empty),
      last_next = 1\<rparr>"


text \<open>The \<^verbatim>\<open>holdings\<close> dict of phase 2: the copied ledger of rank \<open>r\<close> is at \<open>n + r\<close>.\<close>

definition ag_holdings :: "int \<Rightarrow> (int \<times> nat) list" where
  "ag_holdings n = map (\<lambda>r. (int r, nat n + r)) [0..<nat n]"

text \<open>
  The invariant of phase 2 after \<open>t\<close> rounds: the objects of phase 1 are as phase 1
  left them; the copied ledger of rank \<open>r\<close> has the keys \<open>r + 1, r, \<dots>, r + 1 - t\<close>
  modulo \<open>n\<close>, in this order, each with a chunk of that index and all contributors;
  \<^verbatim>\<open>last_received[r]\<close> is \<open>(r + 1 - t) mod n\<close>.
\<close>

definition ag_inv :: "int \<Rightarrow> nat \<Rightarrow> store \<Rightarrow> bool" where
  "ag_inv n t st \<longleftrightarrow>
     nat n \<le> chunk_next st
     \<and> (\<forall>a<nat n. chunk_heap st a = chunk_heap (rs_state n (nat n - 1)) a)
     \<and> (\<forall>d<nat n. ledger_heap st d = ledger_heap (rs_state n (nat n - 1)) d)
     \<and> (\<forall>r<nat n. map fst (ledger_heap st (nat n + r))
                      = map (\<lambda>j. (int r + 1 - int j) mod n) [0..<Suc t])
     \<and> (\<forall>r<nat n. \<forall>(i, a)\<in>set (ledger_heap st (nat n + r)).
            a < chunk_next st \<and> chunk_heap st a = \<lparr>idx = i, contributors = {0..<n}\<rparr>)
     \<and> last_heap st 0 = (\<lambda>r. if 0 \<le> r \<and> r < n then Some ((r + 1 - int t) mod n) else None)"


text \<open>
  Between two stores, every chunk object of the first keeps its index and its
  contributor set has not lost a member.
\<close>

definition chunks_grow :: "store \<Rightarrow> store \<Rightarrow> bool" where
  "chunks_grow st st' \<longleftrightarrow>
     chunk_next st \<le> chunk_next st'
     \<and> (\<forall>a<chunk_next st. idx (chunk_heap st' a) = idx (chunk_heap st a)
            \<and> contributors (chunk_heap st a) \<subseteq> contributors (chunk_heap st' a))"

text \<open>
  What \<^verbatim>\<open>main\<close> reads in \<^verbatim>\<open>last_recv[r]\<close> after phase 1 and after phase 2: the same
  dict object, at the address phase 1 returned.
\<close>

definition last_received_after_phase1 :: "int \<Rightarrow> int \<Rightarrow> int \<Rightarrow> int option" where
  "last_received_after_phase1 num_procs vector_size r =
     (case simulate_reduce_scatter num_procs vector_size of
        Inl e \<Rightarrow> None
      | Inr (st, holdings, last_recv) \<Rightarrow> last_heap st last_recv r)"

definition last_received_after_phase2 :: "int \<Rightarrow> int \<Rightarrow> int \<Rightarrow> int option" where
  "last_received_after_phase2 num_procs vector_size r =
     (case allreduce num_procs vector_size of
        Inl e \<Rightarrow> None
      | Inr (st, holdings, holdings', last_recv) \<Rightarrow> last_heap st last_recv r)"


section \<open>Loops and ranges\<close>

lemma for_loop_append:
  "for_loop (xs @ ys) body s =
     (case for_loop xs body s of Inl e \<Rightarrow> Inl e | Inr s' \<Rightarrow> for_loop ys body s')"
  by (induction xs arbitrary: s) (auto split: sum.splits)

lemma py_range_Suc: "py_range (int (Suc k)) = py_range (int k) @ [int k]"
  unfolding py_range_def nat_int by simp

lemma py_range_int: "py_range (int k) = map int [0..<k]"
  by (simp add: py_range_def)

section \<open>The partner selector\<close>

lemma rho_term: "(if int j mod 2 = 0 then push_bit (nat (int j)) 1 else - push_bit (nat (int j)) (1::int)) = (- 2) ^ j"
proof (cases "even j")
  case True
  have "int j mod 2 = 0" using True by presburger
  then show ?thesis using True by (simp add: push_bit_of_1)
next
  case False
  have "int j mod 2 \<noteq> 0" using False by presburger
  then show ?thesis using False by (simp add: push_bit_of_1)
qed

lemma rho_fold:
  "fold (\<lambda>i total. total + (if i mod 2 = 0 then push_bit (nat i) 1 else - push_bit (nat i) 1))
     (map int [0..<k]) a = a + (\<Sum>i<k. (- 2) ^ i :: int)"
proof (induction k)
  case 0
  then show ?case by simp
next
  case (Suc k)
  then show ?case using rho_term [of k] by simp
qed

lemma rho_sum: "0 \<le> s \<Longrightarrow> rho s = (\<Sum>i\<le>nat s. (- 2) ^ i)"
proof -
  assume "0 \<le> s"
  then have "s + 1 = int (Suc (nat s))" by simp
  then have "py_range (s + 1) = map int [0..<Suc (nat s)]"
    by (simp only: py_range_int)
  then show ?thesis
    unfolding rho_def by (simp only: rho_fold lessThan_Suc_atMost)
qed

lemma rho_neg: "s < 0 \<Longrightarrow> rho s = 0"
  by (simp add: rho_def py_range_def)

text \<open>
  C4: for every round \<open>s \<ge> 0\<close>, \<open>rho s\<close> is the alternating sum of the powers of two
  from \<open>i = 0\<close> to \<open>s\<close>, adding \<open>2 ^ i\<close> for even \<open>i\<close> and subtracting it for odd
  \<open>i\<close>, that is the sum of \<open>(- 2) ^ i\<close>; and \<open>rho 0 = 1\<close>, \<open>rho 1 = - 1\<close>, \<open>rho 2 = 3\<close>,
  \<open>rho 3 = - 5\<close>.
\<close>

theorem rho_alternating_sum:
  "(0 \<le> s \<longrightarrow> rho s = (\<Sum>i\<le>nat s. (- 2) ^ i)
            \<and> rho s = (\<Sum>i\<le>nat s. if even i then 2 ^ i else - (2 ^ i)))
   \<and> rho 0 = 1 \<and> rho 1 = - 1 \<and> rho 2 = 3 \<and> rho 3 = - 5"
proof -
  have a: "rho s = (\<Sum>i\<le>nat s. (- 2) ^ i)" if "0 \<le> s"
    using that by (rule rho_sum)
  have b: "(\<Sum>i\<le>n. (- 2) ^ i) = (\<Sum>i\<le>n. if even i then 2 ^ i else - (2 ^ i :: int))" for n
    by (rule sum.cong) auto
  have c: "rho 0 = 1" "rho 1 = - 1" "rho 2 = 3" "rho 3 = - 5"
    by (simp_all add: rho_sum atMost_Suc numeral_2_eq_2 numeral_3_eq_3 eval_nat_numeral)
  show ?thesis using a b c by simp
qed

theorem rho_alternating_sum_witness:
  "(0::int) \<le> 4 \<and> rho 4 = (\<Sum>i\<le>nat 4. (- 2) ^ i) \<and> rho 4 = 11"
proof -
  have "rho 4 = (\<Sum>i\<le>nat 4. (- 2) ^ i)" using rho_alternating_sum [of 4] by simp
  moreover have "(\<Sum>i\<le>nat 4. (- 2) ^ i) = (11::int)"
    by (simp add: atMost_Suc eval_nat_numeral)
  ultimately show ?thesis by simp
qed

text \<open>
  C3: for every world size \<open>w \<ge> 1\<close>, every rank in \<open>[0, w)\<close> and every round \<open>s\<close>, the
  partner is \<open>(rank + rho s) mod w\<close> for an even rank and \<open>(rank - rho s) mod w\<close> for an
  odd rank, a value in \<open>[0, w)\<close> also when the sum or difference is negative; for
  \<open>w = 16\<close> and round 0 the partner of rank 0 is 1 and the partner of rank 1 is 0.
\<close>

theorem pi_partner_spec:
  "(1 \<le> w \<and> 0 \<le> rank \<and> rank < w \<longrightarrow>
      pi_partner rank s w =
        Inr (if even rank then (rank + rho s) mod w else (rank - rho s) mod w)
      \<and> (\<exists>p. pi_partner rank s w = Inr p \<and> 0 \<le> p \<and> p < w))
   \<and> pi_partner 0 0 16 = Inr 1 \<and> pi_partner 1 0 16 = Inr 0"
proof -
  have r0: "rho 0 = 1" by (simp add: rho_sum)
  have ev: "(rank mod 2 = 0) = even rank" by presburger
  have "pi_partner rank s w =
        Inr (if even rank then (rank + rho s) mod w else (rank - rho s) mod w)" if "1 \<le> w"
    using that by (simp add: pi_partner_def Let_def ev)
  moreover have "pi_partner 0 0 16 = Inr 1" "pi_partner 1 0 16 = Inr 0"
    by (simp_all add: pi_partner_def r0)
  ultimately show ?thesis by auto
qed

theorem pi_partner_spec_witness:
  "(1::int) \<le> 5 \<and> (0::int) \<le> 3 \<and> (3::int) < 5 \<and> pi_partner 3 2 5 = Inr 0"
proof -
  have r2: "rho 2 = 3" by (simp add: rho_sum atMost_Suc eval_nat_numeral)
  have "pi_partner 3 2 5 = Inr (if even (3::int) then (3 + rho 2) mod 5 else (3 - rho 2) mod 5)"
    using pi_partner_spec [of 5 3 2] by simp
  then show ?thesis by (simp add: r2)
qed


section \<open>Rounding to double precision\<close>

lemma round_half_even_of_int: "round_half_even (real_of_int n) = n"
  by (simp add: round_half_even_def)


lemma two_powr_int_neg: "0 \<le> d \<Longrightarrow> 2 powr (- real_of_int d) = 1 / 2 ^ nat d"
proof -
  assume d: "0 \<le> d"
  have r: "real_of_int d = real (nat d)" using d by simp
  have "2 powr (- real (nat d)) = inverse (2 powr real (nat d))" by (rule powr_minus)
  also have "2 powr real (nat d) = 2 ^ nat d" by (simp add: powr_realpow)
  finally show ?thesis unfolding r by (simp add: inverse_eq_divide)
qed

lemma round64_int:
  assumes "\<bar>k\<bar> < 2 ^ 53"
  shows "round64 (real_of_int k) = Finite (real_of_int k)"
proof (cases "k = 0")
  case True
  then show ?thesis by (simp add: round64_def)
next
  case False
  define x where "x = real_of_int k"
  have "1 \<le> \<bar>k\<bar>" using False by simp
  then have "real_of_int 1 \<le> real_of_int \<bar>k\<bar>" by (simp only: of_int_le_iff)
  then have x1: "1 \<le> \<bar>x\<bar>" unfolding x_def by simp
  have "real_of_int \<bar>k\<bar> < real_of_int (2 ^ 53)" using assms by (simp only: of_int_less_iff)
  then have x2: "\<bar>x\<bar> < 2 ^ 53" unfolding x_def by simp
  define e0 where "e0 = \<lfloor>log 2 \<bar>x\<bar>\<rfloor>"
  have l0: "0 \<le> log 2 \<bar>x\<bar>" using x1 by simp
  have "\<bar>x\<bar> < 2 powr 53" using x2 by simp
  then have l1: "log 2 \<bar>x\<bar> < 53" using x1 by (subst log_less_iff) simp_all
  have e0: "0 \<le> e0" "e0 \<le> 52" using l0 l1 unfolding e0_def by (simp_all add: floor_le_iff)
  have mx: "max e0 (- 1022) = e0" using e0 by simp
  define d where "d = 52 - e0"
  have d: "0 \<le> d" using e0 by (simp add: d_def)
  have u: "2 powr (real_of_int e0 - 52) = 1 / 2 ^ nat d"
    using two_powr_int_neg [OF d] by (simp add: d_def)
  have q: "x / (1 / 2 ^ nat d) = real_of_int (k * 2 ^ nat d)"
    by (simp add: x_def)
  have y: "real_of_int (round_half_even (x / (1 / 2 ^ nat d))) * (1 / 2 ^ nat d) = x"
    unfolding q round_half_even_of_int by (simp add: x_def)
  have x3: "\<not> 2 ^ 1024 \<le> x" "\<not> x \<le> - (2 ^ 1024)"
  proof -
    have "(2::real) ^ 53 \<le> 2 ^ 1024" by (rule power_increasing) simp_all
    then show "\<not> 2 ^ 1024 \<le> x" "\<not> x \<le> - (2 ^ 1024)" using x2 by linarith+
  qed
  have "x \<noteq> 0" using x1 by auto
  then have "round64 x = Finite x"
    unfolding round64_def e0_def [symmetric] mx Let_def u y using x3 by simp
  then show ?thesis by (simp add: x_def)
qed








section \<open>The number of rounds\<close>





lemma floor_log_big: "\<lfloor>log 2 (1152921504606846975::real)\<rfloor> = 59"
proof -
  have "\<lfloor>log (real (2::nat)) (real (1152921504606846975::nat))\<rfloor> = int 59"
    by (rule floor_log_nat_eq_if) simp_all
  then show ?thesis by simp
qed

lemma round64_big: "round64 1152921504606846975 = Finite 1152921504606846976"
  by (simp add: round64_def floor_log_big round_half_even_def Let_def)

lemma log_big: "log 2 (1152921504606846976::real) = 60"
proof -
  have "log 2 ((2::real) ^ 60) = real 60" by (rule log_pow_cancel) simp_all
  then show ?thesis by simp
qed

lemma math_log2_big: "math_log2 1152921504606846975 = Inr (Finite 60)"
proof -
  have "round64 (real_of_int 60) = Finite (real_of_int 60)" by (rule round64_int) simp
  then have "round64 60 = Finite 60" by simp
  then show ?thesis
    by (simp add: math_log2_def float_of_int_def round64_big log_big)
qed

text \<open>
  C5: \<open>swing_steps\<close> is meant to be 0 below 2 and the ceiling of the binary logarithm
  from 2 on. The code takes the logarithm of the double nearest to the world size:
  \<open>2 ^ 60 - 1\<close> is converted to the double \<open>2 ^ 60\<close>, whose logarithm is 60, and the
  function returns 61, where the floor of the logarithm plus one is 60.
\<close>

theorem swing_steps_float_rounding:
  "swing_steps (2 ^ 60 - 1) = Inr 61 \<and> \<lfloor>log 2 (real_of_int (2 ^ 60 - 1))\<rfloor> + 1 = 60"
proof -
  have s: "swing_steps 1152921504606846975 = Inr 61"
    by (simp add: swing_steps_def math_log2_big)
  show ?thesis using s floor_log_big by simp
qed

section \<open>The volume matrix\<close>




























section \<open>The ring schedule\<close>

subsection \<open>Phase 1 in closed form\<close>

lemma update_absent: "k \<notin> fst ` set al \<Longrightarrow> AList.update k v al = al @ [(k, v)]"
  by (induction al) auto

lemma map_of_rs_holdings:
  "map_of (rs_holdings n) r = (if 0 \<le> r \<and> r < n then Some (nat r) else None)"
proof -
  have "map_of (map (\<lambda>r. (int r, r)) [0..<k]) r = (if 0 \<le> r \<and> r < int k then Some (nat r) else None)" for k
    by (induction k) (auto simp: map_add_def)
  from this [of "nat n"] show ?thesis by (auto simp: rs_holdings_def)
qed

lemma rs_init_holdings_prefix:
  "fold (\<lambda>r (holdings, st).
             let (a, st1) = new_chunk \<lparr>idx = r, contributors = {r}\<rparr> st;
                 (d, st2) = new_ledger [(r, a)] st1
             in (AList.update r d holdings, st2))
       (map int [0..<k]) ([], empty_store)
   = (map (\<lambda>r. (int r, r)) [0..<k],
      \<lparr>chunk_heap = (\<lambda>a. if a < k then \<lparr>idx = int a, contributors = {int a}\<rparr>
                         else \<lparr>idx = 0, contributors = {}\<rparr>),
       chunk_next = k,
       ledger_heap = (\<lambda>d. if d < k then [(int d, d)] else []),
       ledger_next = k,
       last_heap = (\<lambda>_. Map.empty),
       last_next = 0\<rparr>)"
  (is "fold ?f (map int [0..<k]) ?i = ?c k")
proof (induction k)
  case 0
  then show ?case by (simp add: empty_store_def)
next
  case (Suc k)
  have absent: "int k \<notin> fst ` set (map (\<lambda>r. (int r, r)) [0..<k])" by auto
  have "fold ?f (map int [0..<Suc k]) ?i = ?f (int k) (fold ?f (map int [0..<k]) ?i)"
    by simp
  also have "\<dots> = ?f (int k) (?c k)" by (simp only: Suc)
  also have "\<dots> = ?c (Suc k)"
    by (simp add: new_chunk_def new_ledger_def update_absent [OF absent] fun_eq_iff)
  finally show ?case .
qed

lemma ring_span_0: "0 \<le> a \<Longrightarrow> a < n \<Longrightarrow> ring_span n a 0 = {a}"
  by (simp add: ring_span_def)

lemma ring_span_Suc: "ring_span n a (Suc s) = insert ((a + int s + 1) mod n) (ring_span n a s)"
  by (simp add: ring_span_def atMost_Suc ac_simps)

lemma rs_init_holdings_eq:
  "rs_init_holdings n empty_store
   = (map (\<lambda>r. (int r, r)) [0..<nat n],
      \<lparr>chunk_heap = (\<lambda>a. if a < nat n then \<lparr>idx = int a, contributors = {int a}\<rparr>
                         else \<lparr>idx = 0, contributors = {}\<rparr>),
       chunk_next = nat n,
       ledger_heap = (\<lambda>d. if d < nat n then [(int d, d)] else []),
       ledger_next = nat n,
       last_heap = (\<lambda>_. Map.empty),
       last_next = 0\<rparr>)"
  unfolding rs_init_holdings_def py_range_def by (rule rs_init_holdings_prefix)

lemma rs_init_eq:
  assumes "1 \<le> n"
  shows "rs_init n v = Inr (rs_state n 0, rs_holdings n, 0)"
proof -
  have n0: "n \<noteq> 0" using assms by simp
  have l: "map_of (map (\<lambda>r. (r, r)) (py_range n)) = (\<lambda>r. if 0 \<le> r \<and> r < n then Some r else None)"
  proof
    fix r
    have "map_of (map (\<lambda>r. (r, r)) (map int [0..<k])) r = (if 0 \<le> r \<and> r < int k then Some r else None)" for k
      by (induction k) (auto simp: map_add_def)
    from this [of "nat n"] show "map_of (map (\<lambda>r. (r, r)) (py_range n)) r = (if 0 \<le> r \<and> r < n then Some r else None)"
      by (auto simp: py_range_def)
  qed
  show ?thesis
    using n0
    by (simp add: rs_init_def rs_init_holdings_eq l new_last_def rs_state_def rs_holdings_def
        fun_eq_iff ring_span_0)
qed

lemma for_loop_snoc:
  "for_loop (xs @ [x]) body s =
     (case for_loop xs body s of Inl e \<Rightarrow> Inl e | Inr s' \<Rightarrow> body x s')"
  by (simp add: for_loop_append split: sum.splits)

lemma map_upt_Suc: "map f [0..<Suc k] = map f [0..<k] @ [f k]"
  by simp

lemma mod_succ_pred: "0 \<le> k \<Longrightarrow> k < n \<Longrightarrow> ((k + 1) mod n - 1) mod n = (k::int)"
  by (simp add: mod_diff_left_eq)

lemma pred_mod_eq_iff:
  assumes "0 \<le> t" "t < n" "0 \<le> k" "k < n"
  shows "((t - 1) mod n = k) = (t = (k + 1) mod (n::int))"
proof
  assume "(t - 1) mod n = k"
  then have "(k + 1) mod n = ((t - 1) mod n + 1) mod n" by simp
  also have "\<dots> = t mod n" by (simp add: mod_add_left_eq)
  finally show "t = (k + 1) mod n" using assms by simp
next
  assume "t = (k + 1) mod n"
  then show "(t - 1) mod n = k" using assms by (simp add: mod_succ_pred)
qed

lemma rs_transmissions_step:
  assumes n: "1 \<le> n" and k: "k < nat n"
  shows "(\<lambda>t. if 0 \<le> t \<and> t < n \<and> nat ((t - 1) mod n) < k
            then Some \<lparr>sender = (t - 1) mod n, chunk_idx = (t - 1 - s) mod n,
                       chunk_ref = nat ((t - 1 - s) mod n)\<rparr>
            else None)
         ((int k + 1) mod n \<mapsto>
            \<lparr>sender = int k, chunk_idx = (int k - s) mod n, chunk_ref = nat ((int k - s) mod n)\<rparr>)
       = (\<lambda>t. if 0 \<le> t \<and> t < n \<and> nat ((t - 1) mod n) < Suc k
            then Some \<lparr>sender = (t - 1) mod n, chunk_idx = (t - 1 - s) mod n,
                       chunk_ref = nat ((t - 1 - s) mod n)\<rparr>
            else None)"
proof
  fix t
  have kn: "0 \<le> int k" "int k < n" using k by simp_all
  show "((\<lambda>t. if 0 \<le> t \<and> t < n \<and> nat ((t - 1) mod n) < k
            then Some \<lparr>sender = (t - 1) mod n, chunk_idx = (t - 1 - s) mod n,
                       chunk_ref = nat ((t - 1 - s) mod n)\<rparr>
            else None)
         ((int k + 1) mod n \<mapsto>
            \<lparr>sender = int k, chunk_idx = (int k - s) mod n, chunk_ref = nat ((int k - s) mod n)\<rparr>)) t
       = (if 0 \<le> t \<and> t < n \<and> nat ((t - 1) mod n) < Suc k
            then Some \<lparr>sender = (t - 1) mod n, chunk_idx = (t - 1 - s) mod n,
                       chunk_ref = nat ((t - 1 - s) mod n)\<rparr>
            else None)"
  proof (cases "t = (int k + 1) mod n")
    case True
    have a: "(t - 1) mod n = int k" using True kn by (simp add: mod_succ_pred)
    have "(t - 1 - s) mod n = ((t - 1) mod n - s) mod n" by (simp add: mod_diff_left_eq)
    then have b: "(t - 1 - s) mod n = (int k - s) mod n" using a by simp
    have c: "0 \<le> t \<and> t < n" using True n by simp
    show ?thesis using True a b c by simp
  next
    case False
    have "(t - 1) mod n \<noteq> int k" if "0 \<le> t" "t < n"
      using pred_mod_eq_iff [OF that kn] False by simp
    then have "(nat ((t - 1) mod n) < Suc k) = (nat ((t - 1) mod n) < k)" if "0 \<le> t" "t < n"
      using that n by (auto simp: less_Suc_eq nat_eq_iff)
    then show ?thesis using False by auto
  qed
qed

lemma rs_send_prefix:
  assumes n: "1 \<le> n" and k: "k \<le> nat n"
  shows "for_loop (map int [0..<k]) (rs_send n (int s) (rs_holdings n))
           (rs_state n s, Map.empty, [])
         = Inr ((rs_state n s)\<lparr>ledger_heap :=
                   (\<lambda>d. if d < nat n \<and> k \<le> d
                        then [((int d - int s) mod n, nat ((int d - int s) mod n))] else [])\<rparr>,
                (\<lambda>t. if 0 \<le> t \<and> t < n \<and> nat ((t - 1) mod n) < k
                     then Some \<lparr>sender = (t - 1) mod n, chunk_idx = (t - 1 - int s) mod n,
                                chunk_ref = nat ((t - 1 - int s) mod n)\<rparr>
                     else None),
                map int [0..<k])"
  using k
proof (induction k)
  case 0
  then show ?case by (simp add: rs_state_def)
next
  case (Suc k)
  then have kn: "k < nat n" by simp
  have h: "map_of (rs_holdings n) (int k) = Some k"
    using kn by (simp add: map_of_rs_holdings)
  have led: "(\<lambda>d. if d < nat n \<and> k \<le> d
                then [((int d - int s) mod n, nat ((int d - int s) mod n))] else [])
             (k := []) =
             (\<lambda>d. if d < nat n \<and> Suc k \<le> d
                then [((int d - int s) mod n, nat ((int d - int s) mod n))] else [])"
    by (auto simp: fun_eq_iff)
  show ?case
    using Suc.IH kn
    by (simp only: map_upt_Suc for_loop_snoc)
       (simp add: rs_send_def h AList.delete_eq led rs_transmissions_step [OF n kn])
qed

lemma succ_mod_eq_imp:
  assumes "0 \<le> a" "a < n" "(a + s + 1) mod n = (k::int)"
  shows "a = (k - s - 1) mod n"
proof -
  have "(k - s - 1) mod n = ((a + s + 1) mod n - (s + 1)) mod n"
    using assms(3) by (simp add: algebra_simps)
  also have "\<dots> = a mod n" by (simp add: mod_diff_left_eq)
  finally show ?thesis using assms by simp
qed

lemma pred_succ_mod:
  "0 \<le> k \<Longrightarrow> k < n \<Longrightarrow> ((k - s - 1) mod n + s + 1) mod n = (k::int)"
proof -
  assume k: "0 \<le> k" "k < n"
  have "((k - s - 1) mod n + s + 1) mod n = ((k - s - 1) mod n + (s + 1)) mod n"
    by (simp add: algebra_simps)
  also have "\<dots> = (k - s - 1 + (s + 1)) mod n" by (simp only: mod_add_left_eq)
  finally show ?thesis using k by simp
qed

lemma rs_recv_prefix:
  assumes n: "1 \<le> n" and k: "k \<le> nat n"
  shows "for_loop (map int [0..<k])
           (rs_recv n (int s) (rs_holdings n) 0
              (\<lambda>t. if 0 \<le> t \<and> t < n
                   then Some \<lparr>sender = (t - 1) mod n, chunk_idx = (t - 1 - int s) mod n,
                              chunk_ref = nat ((t - 1 - int s) mod n)\<rparr>
                   else None))
           ((rs_state n s)\<lparr>ledger_heap := (\<lambda>d. [])\<rparr>)
         = Inr \<lparr>chunk_heap =
                  (\<lambda>a. if a < nat n
                       then \<lparr>idx = int a,
                             contributors =
                               (if nat ((int a + int s + 1) mod n) < k
                                then insert ((int a + int s + 1) mod n) (ring_span n (int a) s)
                                else ring_span n (int a) s)\<rparr>
                       else \<lparr>idx = 0, contributors = {}\<rparr>),
                chunk_next = nat n,
                ledger_heap =
                  (\<lambda>d. if d < nat n \<and> d < k
                       then [((int d - int s - 1) mod n, nat ((int d - int s - 1) mod n))] else []),
                ledger_next = nat n,
                last_heap =
                  (\<lambda>l. if l = 0
                       then (\<lambda>r. if 0 \<le> r \<and> r < n
                                 then Some (if nat r < k then (r - int s - 1) mod n
                                            else (r - int s) mod n)
                                 else None)
                       else Map.empty),
                last_next = 1\<rparr>"
  (is "for_loop _ ?body ?start = Inr (?R k)")
  using k
proof (induction k)
  case 0
  then show ?case by (simp add: rs_state_def cong: if_cong)
next
  case (Suc k)
  then have kn: "k < nat n" by simp
  have ik: "0 \<le> int k" "int k < n" using kn by simp_all
  have h: "map_of (rs_holdings n) (int k) = Some k"
    using kn by (simp add: map_of_rs_holdings)
  define a where "a = nat ((int k - 1 - int s) mod n)"
  have ia: "int a = (int k - int s - 1) mod n"
    using n by (simp add: a_def algebra_simps)
  have "int a < n" unfolding ia using n by simp
  then have an: "a < nat n" by linarith
  have bk: "(int a + int s + 1) mod n = int k"
    unfolding ia using ik by (rule pred_succ_mod)
  have other: "(int a' + int s + 1) mod n \<noteq> int k" if "a' < nat n" "a' \<noteq> a" for a'
  proof
    assume "(int a' + int s + 1) mod n = int k"
    then have "int a' = (int k - int s - 1) mod n"
      using that(1) by (intro succ_mod_eq_imp) simp_all
    then show False using ia that(2) by simp
  qed
  have step: "?body (int k) (?R k) = Inr (?R (Suc k))"
  proof -
    have ch: "(\<lambda>a. if a < nat n
                       then \<lparr>idx = int a,
                             contributors =
                               (if nat ((int a + int s + 1) mod n) < k
                                then insert ((int a + int s + 1) mod n) (ring_span n (int a) s)
                                else ring_span n (int a) s)\<rparr>
                       else \<lparr>idx = 0, contributors = {}\<rparr>)
              (a := \<lparr>idx = int a, contributors = insert (int k) (ring_span n (int a) s)\<rparr>)
            = (\<lambda>a. if a < nat n
                       then \<lparr>idx = int a,
                             contributors =
                               (if nat ((int a + int s + 1) mod n) < Suc k
                                then insert ((int a + int s + 1) mod n) (ring_span n (int a) s)
                                else ring_span n (int a) s)\<rparr>
                       else \<lparr>idx = 0, contributors = {}\<rparr>)"
    proof
      fix a'
      show "((\<lambda>a. if a < nat n
                       then \<lparr>idx = int a,
                             contributors =
                               (if nat ((int a + int s + 1) mod n) < k
                                then insert ((int a + int s + 1) mod n) (ring_span n (int a) s)
                                else ring_span n (int a) s)\<rparr>
                       else \<lparr>idx = 0, contributors = {}\<rparr>)
              (a := \<lparr>idx = int a, contributors = insert (int k) (ring_span n (int a) s)\<rparr>)) a'
            = (if a' < nat n
                       then \<lparr>idx = int a',
                             contributors =
                               (if nat ((int a' + int s + 1) mod n) < Suc k
                                then insert ((int a' + int s + 1) mod n) (ring_span n (int a') s)
                                else ring_span n (int a') s)\<rparr>
                       else \<lparr>idx = 0, contributors = {}\<rparr>)"
      proof (cases "a' = a")
        case True
        then show ?thesis using an bk by simp
      next
        case False
        have "(nat ((int a' + int s + 1) mod n) < Suc k) = (nat ((int a' + int s + 1) mod n) < k)"
          if "a' < nat n"
          using other [OF that False] n by (auto simp: less_Suc_eq nat_eq_iff)
        then show ?thesis using False by auto
      qed
    qed
    have led: "(\<lambda>d. if d < nat n \<and> d < k
                       then [((int d - int s - 1) mod n, nat ((int d - int s - 1) mod n))] else [])
               (k := [((int k - int s - 1) mod n, a)])
             = (\<lambda>d. if d < nat n \<and> d < Suc k
                       then [((int d - int s - 1) mod n, nat ((int d - int s - 1) mod n))] else [])"
      using kn ia by (auto simp: fun_eq_iff less_Suc_eq)
    have lst: "(\<lambda>l. if l = 0
                       then (\<lambda>r. if 0 \<le> r \<and> r < n
                                 then Some (if nat r < k then (r - int s - 1) mod n
                                            else (r - int s) mod n)
                                 else None)
                       else Map.empty)
               (0 := (\<lambda>r. if 0 \<le> r \<and> r < n
                                 then Some (if nat r < k then (r - int s - 1) mod n
                                            else (r - int s) mod n)
                                 else None)(int k \<mapsto> (int k - int s - 1) mod n))
             = (\<lambda>l. if l = 0
                       then (\<lambda>r. if 0 \<le> r \<and> r < n
                                 then Some (if nat r < Suc k then (r - int s - 1) mod n
                                            else (r - int s) mod n)
                                 else None)
                       else Map.empty)"
      using ik by (auto simp: fun_eq_iff less_Suc_eq nat_less_iff)
    have nb: "\<not> nat ((int a + int s + 1) mod n) < k" using bk by simp
    show ?thesis
      using ik an nb
      by (simp add: rs_recv_def h Let_def a_def [symmetric] ch led lst)
  qed
  have IH: "for_loop (map int [0..<k]) ?body ?start = Inr (?R k)"
    using Suc.IH kn by simp
  show ?case
    by (simp only: map_upt_Suc for_loop_snoc IH sum.case step)
qed

lemma rs_round_eq:
  assumes n: "1 \<le> n"
  shows "rs_round n (rs_holdings n) 0 (int s) (rs_state n s) = Inr (rs_state n (Suc s))"
proof -
  have e1: "(\<lambda>d. if d < nat n \<and> nat n \<le> d
                then [((int d - int s) mod n, nat ((int d - int s) mod n))] else [])
            = (\<lambda>d. [])"
    by (auto simp: fun_eq_iff)
  have e2: "(\<lambda>t. if 0 \<le> t \<and> t < n \<and> nat ((t - 1) mod n) < nat n
                 then Some \<lparr>sender = (t - 1) mod n, chunk_idx = (t - 1 - int s) mod n,
                            chunk_ref = nat ((t - 1 - int s) mod n)\<rparr>
                 else None)
            = (\<lambda>t. if 0 \<le> t \<and> t < n
                 then Some \<lparr>sender = (t - 1) mod n, chunk_idx = (t - 1 - int s) mod n,
                            chunk_ref = nat ((t - 1 - int s) mod n)\<rparr>
                 else None)"
    using n by (auto simp: fun_eq_iff)
  have sends: "for_loop (py_range n) (rs_send n (int s) (rs_holdings n))
                 (rs_state n s, Map.empty, [])
               = Inr ((rs_state n s)\<lparr>ledger_heap := (\<lambda>d. [])\<rparr>,
                      (\<lambda>t. if 0 \<le> t \<and> t < n
                           then Some \<lparr>sender = (t - 1) mod n, chunk_idx = (t - 1 - int s) mod n,
                                      chunk_ref = nat ((t - 1 - int s) mod n)\<rparr>
                           else None),
                      map int [0..<nat n])"
    unfolding py_range_def using rs_send_prefix [OF n order_refl, of s]
    by (simp only: e1 e2)
  have e3: "\<lparr>chunk_heap =
                  (\<lambda>a. if a < nat n
                       then \<lparr>idx = int a,
                             contributors =
                               (if nat ((int a + int s + 1) mod n) < nat n
                                then insert ((int a + int s + 1) mod n) (ring_span n (int a) s)
                                else ring_span n (int a) s)\<rparr>
                       else \<lparr>idx = 0, contributors = {}\<rparr>),
                chunk_next = nat n,
                ledger_heap =
                  (\<lambda>d. if d < nat n \<and> d < nat n
                       then [((int d - int s - 1) mod n, nat ((int d - int s - 1) mod n))] else []),
                ledger_next = nat n,
                last_heap =
                  (\<lambda>l. if l = 0
                       then (\<lambda>r. if 0 \<le> r \<and> r < n
                                 then Some (if nat r < nat n then (r - int s - 1) mod n
                                            else (r - int s) mod n)
                                 else None)
                       else Map.empty),
                last_next = 1\<rparr> = rs_state n (Suc s)"
  proof -
    have a: "nat ((int a + int s + 1) mod n) < nat n" for a using n by simp
    have b: "x - int s - 1 = x - (1 + int s)" for x :: int by simp
    show ?thesis
      unfolding rs_state_def
      by (simp add: a ring_span_Suc fun_eq_iff b cong: if_cong)
  qed
  have recvs: "for_loop (map int [0..<nat n])
           (rs_recv n (int s) (rs_holdings n) 0
              (\<lambda>t. if 0 \<le> t \<and> t < n
                   then Some \<lparr>sender = (t - 1) mod n, chunk_idx = (t - 1 - int s) mod n,
                              chunk_ref = nat ((t - 1 - int s) mod n)\<rparr>
                   else None))
           ((rs_state n s)\<lparr>ledger_heap := (\<lambda>d. [])\<rparr>) = Inr (rs_state n (Suc s))"
    using rs_recv_prefix [OF n order_refl, of s] by (simp only: e3)
  show ?thesis
    unfolding rs_round_def by (simp only: sends sum.case prod.case recvs)
qed

lemma rs_rounds_eq:
  assumes n: "1 \<le> n"
  shows "for_loop (map int [0..<k]) (rs_round n (rs_holdings n) 0) (rs_state n 0)
         = Inr (rs_state n k)"
proof (induction k)
  case 0
  then show ?case by simp
next
  case (Suc k)
  show ?case
    by (simp only: map_upt_Suc for_loop_snoc Suc sum.case rs_round_eq [OF n])
qed

lemma rs_run_eq:
  assumes n: "1 \<le> n"
  shows "rs_run n v (map int [0..<k]) = Inr (rs_state n k, rs_holdings n, 0)"
  unfolding rs_run_def
  by (simp only: rs_init_eq [OF n] sum.case prod.case rs_rounds_eq [OF n])

lemma simulate_reduce_scatter_eq:
  assumes n: "1 \<le> n"
  shows "simulate_reduce_scatter n v = Inr (rs_state n (nat n - 1), rs_holdings n, 0)"
proof -
  have "nat (n - 1) = nat n - 1" by simp
  then show ?thesis
    unfolding simulate_reduce_scatter_def py_range_def
    by (simp only: rs_run_eq [OF n])
qed

lemma reduce_scatter_after_eq:
  assumes n: "1 \<le> n"
  shows "reduce_scatter_after n v k = Inr (rs_state n (min k (nat n - 1)), rs_holdings n, 0)"
proof -
  have m: "nat (n - 1) = nat n - 1" by simp
  have "take k (py_range (n - 1)) = map int [0..<min k (nat n - 1)]"
    unfolding py_range_def m by (simp add: take_map min_def)
  then show ?thesis
    unfolding reduce_scatter_after_def by (simp only: rs_run_eq [OF n])
qed

lemma ring_span_full:
  assumes n: "1 \<le> n"
  shows "ring_span n a (nat n - 1) = {0..<n}"
proof
  show "ring_span n a (nat n - 1) \<subseteq> {0..<n}"
    using n by (auto simp: ring_span_def)
next
  show "{0..<n} \<subseteq> ring_span n a (nat n - 1)"
  proof
    fix x assume "x \<in> {0..<n}"
    then have x: "0 \<le> x" "x < n" by simp_all
    define j where "j = nat ((x - a) mod n)"
    have ij: "int j = (x - a) mod n" using n by (simp add: j_def)
    have "int j < n" unfolding ij using n by simp
    then have jn: "j \<le> nat n - 1" by linarith
    have "(a + int j) mod n = (a + (x - a)) mod n"
      unfolding ij by (simp only: mod_add_right_eq)
    then have "(a + int j) mod n = x" using x by simp
    then show "x \<in> ring_span n a (nat n - 1)"
      unfolding ring_span_def using jn by (intro image_eqI [where x = j]) simp_all
  qed
qed

lemma ring_span_partial:
  assumes n: "1 \<le> n" and s: "s < nat n - 1"
  shows "ring_span n a s \<noteq> {0..<n}"
proof
  assume e: "ring_span n a s = {0..<n}"
  have "card (ring_span n a s) \<le> card {..s}"
    unfolding ring_span_def by (rule card_image_le) simp
  then have "card {0..<n} \<le> Suc s" using e by simp
  then show False using s n by simp
qed

lemma held_rs_state:
  assumes n: "1 \<le> n" and r: "0 \<le> r" "r < n"
  shows "held (rs_state n s) (rs_holdings n) r ((r - int s) mod n)
         = Some (ring_span n ((r - int s) mod n) s)"
    and "last_heap (rs_state n s) 0 r = Some ((r - int s) mod n)"
    and "ledger_keys (rs_state n s) (rs_holdings n) r = [(r - int s) mod n]"
proof -
  have a: "nat ((r - int s) mod n) < nat n" using n by simp
  have b: "nat r < nat n" using r by simp
  show "held (rs_state n s) (rs_holdings n) r ((r - int s) mod n)
         = Some (ring_span n ((r - int s) mod n) s)"
    using n r a b by (simp add: held_def map_of_rs_holdings rs_state_def)
  show "last_heap (rs_state n s) 0 r = Some ((r - int s) mod n)"
    using r by (simp add: rs_state_def)
  show "ledger_keys (rs_state n s) (rs_holdings n) r = [(r - int s) mod n]"
    using r b by (simp add: ledger_keys_def map_of_rs_holdings rs_state_def)
qed

subsection \<open>Phase 2 and its invariant\<close>

lemma mod_minus_last:
  assumes "1 \<le> n"
  shows "(x - int (nat n - 1)) mod n = (x + 1) mod n"
proof -
  have "x - int (nat n - 1) = x + 1 - n" using assms by simp
  then have "(x - int (nat n - 1)) mod n = (x + 1 - n) mod n" by (simp only:)
  also have "\<dots> = (x + 1) mod n" by simp
  finally show ?thesis .
qed

lemma mod_plus_self: "(n + x + 1) mod n = (x + 1) mod (n::int)"
  by (simp add: add.assoc)

lemma rs_state_final:
  assumes n: "1 \<le> n"
  shows "rs_state n (nat n - 1) =
     \<lparr>chunk_heap = (\<lambda>a. if a < nat n then \<lparr>idx = int a, contributors = {0..<n}\<rparr>
                         else \<lparr>idx = 0, contributors = {}\<rparr>),
      chunk_next = nat n,
      ledger_heap = (\<lambda>d. if d < nat n
                          then [((int d + 1) mod n, nat ((int d + 1) mod n))] else []),
      ledger_next = nat n,
      last_heap = (\<lambda>l. if l = 0
                        then (\<lambda>r. if 0 \<le> r \<and> r < n then Some ((r + 1) mod n) else None)
                        else Map.empty),
      last_next = 1\<rparr>"
  by (simp only: rs_state_def ring_span_full [OF n] mod_minus_last [OF n])

lemma map_of_ag_holdings:
  "map_of (ag_holdings n) r = (if 0 \<le> r \<and> r < n then Some (nat n + nat r) else None)"
proof -
  have "map_of (map (\<lambda>r. (int r, m + r)) [0..<k]) r
        = (if 0 \<le> r \<and> r < int k then Some (m + nat r) else None)" for k m
    by (induction k) (auto simp: map_add_def)
  from this [of "nat n" "nat n"] show ?thesis by (auto simp: ag_holdings_def)
qed

lemma copy_ledger_single:
  "copy_ledger [(i, a)] st =
     ([(i, chunk_next st)],
      st\<lparr>chunk_heap := (chunk_heap st)(chunk_next st := chunk_heap st a),
         chunk_next := Suc (chunk_next st)\<rparr>)"
  by (simp add: copy_ledger_def deepcopy_chunk_def new_chunk_def)

lemma copy_holdings_prefix:
  assumes n: "1 \<le> n" and k: "k \<le> nat n"
  shows "fold (\<lambda>(r, d) (holdings, st).
             let (l, st1) = copy_ledger (ledger_heap st d) st;
                 (d', st2) = new_ledger l st1
             in (AList.update r d' holdings, st2))
           (map (\<lambda>r. (int r, r)) [0..<k]) ([], rs_state n (nat n - 1))
         = (map (\<lambda>r. (int r, nat n + r)) [0..<k],
            \<lparr>chunk_heap =
               (\<lambda>a. if a < nat n then \<lparr>idx = int a, contributors = {0..<n}\<rparr>
                    else if a < nat n + k then \<lparr>idx = (int a + 1) mod n, contributors = {0..<n}\<rparr>
                    else \<lparr>idx = 0, contributors = {}\<rparr>),
             chunk_next = nat n + k,
             ledger_heap =
               (\<lambda>d. if d < nat n then [((int d + 1) mod n, nat ((int d + 1) mod n))]
                    else if d < nat n + k then [((int d + 1) mod n, d)]
                    else []),
             ledger_next = nat n + k,
             last_heap =
               (\<lambda>l. if l = 0
                    then (\<lambda>r. if 0 \<le> r \<and> r < n then Some ((r + 1) mod n) else None)
                    else Map.empty),
             last_next = 1\<rparr>)"
  (is "fold ?f (map ?g [0..<k]) ?i = ?c k")
  using k
proof (induction k)
  case 0
  show ?case
    by (simp only: rs_state_final [OF n]) (simp cong: if_cong)
next
  case (Suc k)
  then have kn: "k < nat n" by simp
  have IH: "fold ?f (map ?g [0..<k]) ?i = ?c k" using Suc by simp
  have absent: "int k \<notin> fst ` set (map (\<lambda>r. (int r, nat n + r)) [0..<k])" by auto
  have a: "nat ((int k + 1) mod n) < nat n" using n by simp
  have nn: "int (nat n) = n" using n by simp
  have "fold ?f (map ?g [0..<Suc k]) ?i = ?f (?g k) (fold ?f (map ?g [0..<k]) ?i)"
    by simp
  also have "\<dots> = ?f (?g k) (?c k)" by (simp only: IH)
  also have "\<dots> = ?c (Suc k)"
    using kn a
    by (simp add: copy_ledger_single new_ledger_def update_absent [OF absent] fun_eq_iff
        nn mod_plus_self)
  finally show ?case .
qed

lemma copy_holdings_eq:
  assumes n: "1 \<le> n"
  shows "\<exists>st. copy_holdings (rs_holdings n) (rs_state n (nat n - 1)) = (ag_holdings n, st)
              \<and> ag_inv n 0 st"
proof -
  let ?st = "\<lparr>chunk_heap =
               (\<lambda>a. if a < nat n then \<lparr>idx = int a, contributors = {0..<n}\<rparr>
                    else if a < nat n + nat n then \<lparr>idx = (int a + 1) mod n, contributors = {0..<n}\<rparr>
                    else \<lparr>idx = 0, contributors = {}\<rparr>),
             chunk_next = nat n + nat n,
             ledger_heap =
               (\<lambda>d. if d < nat n then [((int d + 1) mod n, nat ((int d + 1) mod n))]
                    else if d < nat n + nat n then [((int d + 1) mod n, d)]
                    else []),
             ledger_next = nat n + nat n,
             last_heap =
               (\<lambda>l. if l = 0
                    then (\<lambda>r. if 0 \<le> r \<and> r < n then Some ((r + 1) mod n) else None)
                    else Map.empty),
             last_next = 1\<rparr>"
  have c: "copy_holdings (rs_holdings n) (rs_state n (nat n - 1)) = (ag_holdings n, ?st)"
    unfolding copy_holdings_def rs_holdings_def ag_holdings_def
    by (rule copy_holdings_prefix [OF n order_refl])
  have nn: "int (nat n) = n" using n by simp
  have "ag_inv n 0 ?st"
    unfolding ag_inv_def
    by (simp only: rs_state_final [OF n]) (simp add: nn mod_plus_self cong: if_cong)
  then show ?thesis using c by blast
qed

lemma succ_mod_inj:
  assumes "0 \<le> r" "r < n" "0 \<le> k" "k < n" "(r + 1) mod n = (k + 1) mod (n::int)"
  shows "r = k"
proof -
  have "r = ((r + 1) mod n - 1) mod n" using assms(1,2) by (simp only: mod_succ_pred)
  also have "\<dots> = ((k + 1) mod n - 1) mod n" by (simp only: assms(5))
  also have "\<dots> = k" using assms(3,4) by (simp only: mod_succ_pred)
  finally show ?thesis .
qed

lemma ag_inv_send_key:
  assumes n: "1 \<le> n" and inv: "ag_inv n t st" and k: "k < nat n"
  shows "\<exists>a. map_of (ledger_heap st (nat n + k)) ((int k + 1 - int t) mod n) = Some a
             \<and> a < chunk_next st
             \<and> chunk_heap st a = \<lparr>idx = (int k + 1 - int t) mod n, contributors = {0..<n}\<rparr>"
proof -
  let ?L = "ledger_heap st (nat n + k)"
  let ?si = "(int k + 1 - int t) mod n"
  have keys: "map fst ?L = map (\<lambda>j. (int k + 1 - int j) mod n) [0..<Suc t]"
    using inv k by (simp add: ag_inv_def)
  have "?si \<in> set (map fst ?L)" unfolding keys by (auto intro!: image_eqI [where x = t])
  then have "?si \<in> fst ` set ?L" by simp
  then have "map_of ?L ?si \<noteq> None" by (simp add: map_of_eq_None_iff)
  then obtain a where a: "map_of ?L ?si = Some a" by blast
  then have mem: "(?si, a) \<in> set ?L" by (rule map_of_SomeD)
  have "\<forall>(i, a)\<in>set ?L. a < chunk_next st \<and> chunk_heap st a = \<lparr>idx = i, contributors = {0..<n}\<rparr>"
    using inv k by (simp add: ag_inv_def)
  then have "a < chunk_next st \<and> chunk_heap st a = \<lparr>idx = ?si, contributors = {0..<n}\<rparr>"
    using mem by blast
  then show ?thesis using a by blast
qed

lemma ag_send_prefix:
  assumes n: "1 \<le> n" and inv: "ag_inv n t st" and k: "k \<le> nat n"
  shows "\<exists>st' T. for_loop (map int [0..<k]) (ag_send n (ag_holdings n) 0) (st, Map.empty, [])
                    = Inr (st', T, map int [0..<k])
     \<and> ledger_heap st' = ledger_heap st \<and> last_heap st' = last_heap st
     \<and> chunk_next st \<le> chunk_next st'
     \<and> (\<forall>a<chunk_next st. chunk_heap st' a = chunk_heap st a)
     \<and> (\<forall>r<k. \<exists>a'. T ((int r + 1) mod n)
                       = Some \<lparr>sender = int r, chunk_idx = (int r + 1 - int t) mod n, chunk_ref = a'\<rparr>
                  \<and> a' < chunk_next st'
                  \<and> chunk_heap st' a' = \<lparr>idx = (int r + 1 - int t) mod n, contributors = {0..<n}\<rparr>)"
  using k
proof (induction k)
  case 0
  then show ?case by simp
next
  case (Suc k)
  then have kn: "k < nat n" by simp
  have kle: "k \<le> nat n" using kn by simp
  from Suc.IH [OF kle] obtain st1 T1 where
    run: "for_loop (map int [0..<k]) (ag_send n (ag_holdings n) 0) (st, Map.empty, [])
            = Inr (st1, T1, map int [0..<k])"
    and led: "ledger_heap st1 = ledger_heap st" and lst: "last_heap st1 = last_heap st"
    and nxt: "chunk_next st \<le> chunk_next st1"
    and old: "\<forall>a<chunk_next st. chunk_heap st1 a = chunk_heap st a"
    and T1: "\<forall>r<k. \<exists>a'. T1 ((int r + 1) mod n)
                       = Some \<lparr>sender = int r, chunk_idx = (int r + 1 - int t) mod n, chunk_ref = a'\<rparr>
                  \<and> a' < chunk_next st1
                  \<and> chunk_heap st1 a' = \<lparr>idx = (int r + 1 - int t) mod n, contributors = {0..<n}\<rparr>"
    by (elim exE conjE)
  let ?si = "(int k + 1 - int t) mod n"
  from ag_inv_send_key [OF n inv kn] obtain a where
    a: "map_of (ledger_heap st (nat n + k)) ?si = Some a" "a < chunk_next st"
       "chunk_heap st a = \<lparr>idx = ?si, contributors = {0..<n}\<rparr>"
    by blast
  have l: "last_heap st1 0 (int k) = Some ?si"
    using inv kn lst by (simp add: ag_inv_def)
  have h: "map_of (ag_holdings n) (int k) = Some (nat n + k)"
    using kn by (simp add: map_of_ag_holdings)
  let ?a' = "chunk_next st1"
  let ?st2 = "st1\<lparr>chunk_heap := (chunk_heap st1)(?a' := chunk_heap st1 a), chunk_next := Suc ?a'\<rparr>"
  let ?T2 = "T1((int k + 1) mod n \<mapsto> \<lparr>sender = int k, chunk_idx = ?si, chunk_ref = ?a'\<rparr>)"
  have body: "ag_send n (ag_holdings n) 0 (int k) (st1, T1, map int [0..<k])
              = Inr (?st2, ?T2, map int [0..<k] @ [int k])"
    using l h a(1) led by (simp add: ag_send_def deepcopy_chunk_def new_chunk_def)
  have run2: "for_loop (map int [0..<Suc k]) (ag_send n (ag_holdings n) 0) (st, Map.empty, [])
            = Inr (?st2, ?T2, map int [0..<Suc k])"
    by (simp only: map_upt_Suc for_loop_snoc run sum.case body)
  have ca: "chunk_heap st1 a = \<lparr>idx = ?si, contributors = {0..<n}\<rparr>"
    using old a by simp
  have p1: "ledger_heap ?st2 = ledger_heap st" "last_heap ?st2 = last_heap st"
    using led lst by simp_all
  have p2: "chunk_next st \<le> chunk_next ?st2" using nxt by simp
  have p3: "\<forall>b<chunk_next st. chunk_heap ?st2 b = chunk_heap st b"
    using old nxt by simp
  have p4: "\<exists>a'. ?T2 ((int r + 1) mod n)
                       = Some \<lparr>sender = int r, chunk_idx = (int r + 1 - int t) mod n, chunk_ref = a'\<rparr>
                  \<and> a' < chunk_next ?st2
                  \<and> chunk_heap ?st2 a' = \<lparr>idx = (int r + 1 - int t) mod n, contributors = {0..<n}\<rparr>"
    if r: "r < Suc k" for r
  proof (cases "r = k")
    case True
    show ?thesis
    proof (rule exI [where x = ?a'], intro conjI)
      show "?T2 ((int r + 1) mod n)
              = Some \<lparr>sender = int r, chunk_idx = (int r + 1 - int t) mod n, chunk_ref = ?a'\<rparr>"
        using True by simp
      show "?a' < chunk_next ?st2" by simp
      show "chunk_heap ?st2 ?a' = \<lparr>idx = (int r + 1 - int t) mod n, contributors = {0..<n}\<rparr>"
        using True ca by simp
    qed
  next
    case False
    then have rk: "r < k" using r by simp
    have ne: "(int r + 1) mod n \<noteq> (int k + 1) mod n"
    proof
      assume e: "(int r + 1) mod n = (int k + 1) mod n"
      have "int r = int k"
        by (rule succ_mod_inj [where n = n]) (use rk kn e in simp_all)
      then show False using False by simp
    qed
    from T1 rk obtain a' where a': "T1 ((int r + 1) mod n)
                       = Some \<lparr>sender = int r, chunk_idx = (int r + 1 - int t) mod n, chunk_ref = a'\<rparr>"
      "a' < chunk_next st1"
      "chunk_heap st1 a' = \<lparr>idx = (int r + 1 - int t) mod n, contributors = {0..<n}\<rparr>"
      by blast
    show ?thesis
    proof (rule exI [where x = a'], intro conjI)
      show "?T2 ((int r + 1) mod n)
              = Some \<lparr>sender = int r, chunk_idx = (int r + 1 - int t) mod n, chunk_ref = a'\<rparr>"
        using a'(1) ne by simp
      show "a' < chunk_next ?st2" using a'(2) by simp
      show "chunk_heap ?st2 a' = \<lparr>idx = (int r + 1 - int t) mod n, contributors = {0..<n}\<rparr>"
        using a'(2,3) by simp
    qed
  qed
  show ?case
  proof (rule exI [where x = ?st2], rule exI [where x = ?T2], intro conjI allI impI)
    show "for_loop (map int [0..<Suc k]) (ag_send n (ag_holdings n) 0) (st, Map.empty, [])
            = Inr (?st2, ?T2, map int [0..<Suc k])" by (rule run2)
    show "ledger_heap ?st2 = ledger_heap st" by (rule p1)
    show "last_heap ?st2 = last_heap st" by (rule p1)
    show "chunk_next st \<le> chunk_next ?st2" by (rule p2)
    show "chunk_heap ?st2 b = chunk_heap st b" if "b < chunk_next st" for b
      using p3 that by (elim allE impE)
    show "\<exists>a'. ?T2 ((int r + 1) mod n)
                       = Some \<lparr>sender = int r, chunk_idx = (int r + 1 - int t) mod n, chunk_ref = a'\<rparr>
                  \<and> a' < chunk_next ?st2
                  \<and> chunk_heap ?st2 a' = \<lparr>idx = (int r + 1 - int t) mod n, contributors = {0..<n}\<rparr>"
      if "r < Suc k" for r
      using that by (rule p4)
  qed
qed

lemma ag_recv_prefix:
  assumes n: "1 \<le> n" and k: "k \<le> nat n"
    and T: "\<forall>r<nat n. T (int r) = Some \<lparr>sender = sd r, chunk_idx = ci r, chunk_ref = c r\<rparr>"
    and absent: "\<forall>r<nat n. map_of (ledger_heap s0 (nat n + r)) (ci r) = None"
  shows "for_loop (map int [0..<k]) (ag_recv (ag_holdings n) 0 T) s0
         = Inr (s0\<lparr>ledger_heap :=
                     (\<lambda>d. if nat n \<le> d \<and> d < nat n + k
                          then ledger_heap s0 d @ [(ci (d - nat n), c (d - nat n))]
                          else ledger_heap s0 d),
                   last_heap :=
                     (last_heap s0)
                       (0 := (\<lambda>r. if 0 \<le> r \<and> nat r < k then Some (ci (nat r))
                                   else last_heap s0 0 r))\<rparr>)"
  (is "for_loop _ ?body _ = Inr (?R k)")
  using k
proof (induction k)
  case 0
  have a: "(\<lambda>d. if nat n \<le> d \<and> d < nat n + 0
                then ledger_heap s0 d @ [(ci (d - nat n), c (d - nat n))]
                else ledger_heap s0 d) = ledger_heap s0"
    by (auto simp: fun_eq_iff)
  have b: "(\<lambda>r. if 0 \<le> r \<and> nat r < 0 then Some (ci (nat r)) else last_heap s0 0 r)
            = last_heap s0 0"
    by (auto simp: fun_eq_iff)
  have "?R 0 = s0" by (simp only: a b) simp
  then show ?case by (simp only: upt_0 list.map for_loop.simps)
next
  case (Suc k)
  then have kn: "k < nat n" by simp
  have IH: "for_loop (map int [0..<k]) ?body s0 = Inr (?R k)" using Suc by simp
  have tk: "T (int k) = Some \<lparr>sender = sd k, chunk_idx = ci k, chunk_ref = c k\<rparr>"
    using T kn by simp
  have h: "map_of (ag_holdings n) (int k) = Some (nat n + k)"
    using kn by (simp add: map_of_ag_holdings)
  have ab: "map_of (ledger_heap s0 (nat n + k)) (ci k) = None" using absent kn by simp
  then have nk: "ci k \<notin> fst ` set (ledger_heap s0 (nat n + k))"
    by (simp add: map_of_eq_None_iff)
  have led: "(\<lambda>d. if nat n \<le> d \<and> d < nat n + k
                  then ledger_heap s0 d @ [(ci (d - nat n), c (d - nat n))]
                  else ledger_heap s0 d)
             (nat n + k := ledger_heap s0 (nat n + k) @ [(ci k, c k)])
           = (\<lambda>d. if nat n \<le> d \<and> d < nat n + Suc k
                  then ledger_heap s0 d @ [(ci (d - nat n), c (d - nat n))]
                  else ledger_heap s0 d)"
    by (auto simp: fun_eq_iff)
  have lst: "(\<lambda>r. if 0 \<le> r \<and> nat r < k then Some (ci (nat r)) else last_heap s0 0 r)
               (int k \<mapsto> ci k)
           = (\<lambda>r. if 0 \<le> r \<and> nat r < Suc k then Some (ci (nat r)) else last_heap s0 0 r)"
    by (auto simp: fun_eq_iff less_Suc_eq)
  have upd: "(\<lambda>a. if a = 0 then g else f a)(0 := h) = (\<lambda>a. if a = 0 then h else f a)"
    for f :: "nat \<Rightarrow> int \<rightharpoonup> int" and g h
    by (auto simp: fun_eq_iff)
  have step: "?body (int k) (?R k) = Inr (?R (Suc k))"
    by (simp add: ag_recv_def tk h ab update_absent [OF nk] led lst upd)
  show ?case
    by (simp only: map_upt_Suc for_loop_snoc IH sum.case step)
qed

lemma key_fresh:
  assumes n: "1 \<le> n" and t: "Suc t < nat n" and j: "j \<le> t"
  shows "(r + 1 - int j) mod n \<noteq> (r - int t) mod n"
proof
  assume "(r + 1 - int j) mod n = (r - int t) mod n"
  then have "n dvd (r + 1 - int j) - (r - int t)" by (simp only: mod_eq_dvd_iff)
  then have d: "n dvd int t + 1 - int j" by (simp add: algebra_simps)
  have pos: "0 < int t + 1 - int j" using j by simp
  have "int t + 1 - int j < n" using t j by linarith
  then show False using d pos zdvd_not_zless by blast
qed

lemma ag_round_inv:
  assumes n: "1 \<le> n" and inv: "ag_inv n t st" and t: "Suc t < nat n"
  shows "\<exists>st'. ag_round n (ag_holdings n) 0 step st = Inr st' \<and> ag_inv n (Suc t) st'"
proof -
  from ag_send_prefix [OF n inv order_refl] obtain st1 T where
    run1: "for_loop (map int [0..<nat n]) (ag_send n (ag_holdings n) 0) (st, Map.empty, [])
            = Inr (st1, T, map int [0..<nat n])"
    and led: "ledger_heap st1 = ledger_heap st" and lst: "last_heap st1 = last_heap st"
    and nxt: "chunk_next st \<le> chunk_next st1"
    and old: "\<forall>a<chunk_next st. chunk_heap st1 a = chunk_heap st a"
    and Tp: "\<forall>r<nat n. \<exists>a'. T ((int r + 1) mod n)
                       = Some \<lparr>sender = int r, chunk_idx = (int r + 1 - int t) mod n, chunk_ref = a'\<rparr>
                  \<and> a' < chunk_next st1
                  \<and> chunk_heap st1 a' = \<lparr>idx = (int r + 1 - int t) mod n, contributors = {0..<n}\<rparr>"
    by (elim exE conjE)
  have i1: "nat n \<le> chunk_next st"
    and i2: "\<forall>a<nat n. chunk_heap st a = chunk_heap (rs_state n (nat n - 1)) a"
    and i3: "\<forall>d<nat n. ledger_heap st d = ledger_heap (rs_state n (nat n - 1)) d"
    and i4: "\<forall>r<nat n. map fst (ledger_heap st (nat n + r))
                      = map (\<lambda>j. (int r + 1 - int j) mod n) [0..<Suc t]"
    and i5: "\<forall>r<nat n. \<forall>(i, a)\<in>set (ledger_heap st (nat n + r)).
            a < chunk_next st \<and> chunk_heap st a = \<lparr>idx = i, contributors = {0..<n}\<rparr>"
    and i6: "last_heap st 0 = (\<lambda>r. if 0 \<le> r \<and> r < n then Some ((r + 1 - int t) mod n) else None)"
    using inv unfolding ag_inv_def by blast+
  define c where "c r = chunk_ref (the (T (int r)))" for r :: nat
  define sd where "sd r = (int r - 1) mod n" for r :: nat
  define ci where "ci r = (int r - int t) mod n" for r :: nat
  have Tr: "T (int r) = Some \<lparr>sender = sd r, chunk_idx = ci r, chunk_ref = c r\<rparr>
            \<and> c r < chunk_next st1
            \<and> chunk_heap st1 (c r) = \<lparr>idx = ci r, contributors = {0..<n}\<rparr>"
    if r: "r < nat n" for r
  proof -
    define r' where "r' = nat ((int r - 1) mod n)"
    have ir': "int r' = (int r - 1) mod n" using n by (simp add: r'_def)
    have "int r' < n" unfolding ir' using n by simp
    then have r'n: "r' < nat n" by linarith
    have "(int r' + 1) mod n = (int r - 1 + 1) mod n"
      unfolding ir' by (simp only: mod_add_left_eq)
    then have back1: "(int r' + 1) mod n = int r" using r by simp
    have "(int r' + 1 - int t) mod n = ((int r - 1) mod n + (1 - int t)) mod n"
      unfolding ir' by (simp add: algebra_simps)
    also have "\<dots> = (int r - 1 + (1 - int t)) mod n" by (simp only: mod_add_left_eq)
    finally have back2: "(int r' + 1 - int t) mod n = ci r" by (simp add: ci_def)
    from Tp r'n obtain a' where
      a': "T ((int r' + 1) mod n)
             = Some \<lparr>sender = int r', chunk_idx = (int r' + 1 - int t) mod n, chunk_ref = a'\<rparr>"
        "a' < chunk_next st1"
        "chunk_heap st1 a' = \<lparr>idx = (int r' + 1 - int t) mod n, contributors = {0..<n}\<rparr>"
      by blast
    have tr: "T (int r) = Some \<lparr>sender = sd r, chunk_idx = ci r, chunk_ref = a'\<rparr>"
    proof -
      have sdr: "int r' = sd r" by (simp add: sd_def ir')
      have e1: "T ((int r' + 1) mod n) = T (int r)" by (simp only: back1)
      have e2: "\<lparr>sender = int r', chunk_idx = (int r' + 1 - int t) mod n, chunk_ref = a'\<rparr>
                = \<lparr>sender = sd r, chunk_idx = ci r, chunk_ref = a'\<rparr>"
        by (simp only: back2) (simp only: sdr)
      show ?thesis using a'(1) unfolding e1 e2 .
    qed
    then have "c r = a'" by (simp add: c_def)
    then show ?thesis using tr a'(2,3) back2 by simp
  qed
  have absent: "\<forall>r<nat n. map_of (ledger_heap st1 (nat n + r)) (ci r) = None"
  proof (intro allI impI)
    fix r assume r: "r < nat n"
    have keys: "map fst (ledger_heap st (nat n + r))
                  = map (\<lambda>j. (int r + 1 - int j) mod n) [0..<Suc t]"
      using i4 r by blast
    have "ci r \<notin> set (map fst (ledger_heap st (nat n + r)))"
    proof
      assume "ci r \<in> set (map fst (ledger_heap st (nat n + r)))"
      then have "ci r \<in> (\<lambda>j. (int r + 1 - int j) mod n) ` {0..<Suc t}"
        unfolding keys set_map set_upt .
      then obtain j where "j \<in> {0..<Suc t}" and j2: "ci r = (int r + 1 - int j) mod n"
        by (rule imageE)
      then have j: "j \<le> t" "ci r = (int r + 1 - int j) mod n" by simp_all
      then show False using key_fresh [OF n t j(1), of "int r"] by (simp add: ci_def)
    qed
    then have "ci r \<notin> fst ` set (ledger_heap st1 (nat n + r))" by (simp add: led)
    then show "map_of (ledger_heap st1 (nat n + r)) (ci r) = None"
      by (simp add: map_of_eq_None_iff)
  qed
  define st2 where "st2 = st1\<lparr>ledger_heap :=
                     (\<lambda>d. if nat n \<le> d \<and> d < nat n + nat n
                          then ledger_heap st1 d @ [(ci (d - nat n), c (d - nat n))]
                          else ledger_heap st1 d),
                   last_heap :=
                     (last_heap st1)
                       (0 := (\<lambda>r. if 0 \<le> r \<and> nat r < nat n then Some (ci (nat r))
                                   else last_heap st1 0 r))\<rparr>"
  have Tr1: "\<forall>r<nat n. T (int r) = Some \<lparr>sender = sd r, chunk_idx = ci r, chunk_ref = c r\<rparr>"
    using Tr by blast
  have run2: "for_loop (map int [0..<nat n]) (ag_recv (ag_holdings n) 0 T) st1 = Inr st2"
    unfolding st2_def by (rule ag_recv_prefix [OF n order_refl Tr1 absent])
  have round: "ag_round n (ag_holdings n) 0 step st = Inr st2"
    unfolding ag_round_def py_range_def by (simp only: run1 sum.case prod.case run2)
  have c2: "chunk_heap st2 = chunk_heap st1" "chunk_next st2 = chunk_next st1"
    by (simp_all add: st2_def)
  have l_old: "ledger_heap st2 d = ledger_heap st d" if "d < nat n" for d
    using that by (simp add: st2_def led)
  have l_new: "ledger_heap st2 (nat n + r) = ledger_heap st (nat n + r) @ [(ci r, c r)]"
    if "r < nat n" for r
    using that by (simp add: st2_def led)
  have last2: "last_heap st2 0 = (\<lambda>r. if 0 \<le> r \<and> r < n then Some ((r + 1 - int (Suc t)) mod n) else None)"
  proof
    fix r
    show "last_heap st2 0 r = (if 0 \<le> r \<and> r < n then Some ((r + 1 - int (Suc t)) mod n) else None)"
    proof (cases "0 \<le> r \<and> r < n")
      case True
      then have "nat r < nat n" by simp
      then show ?thesis using True by (simp add: st2_def ci_def)
    next
      case False
      then have "\<not> (0 \<le> r \<and> nat r < nat n)" by auto
      then show ?thesis using False by (auto simp: st2_def lst i6)
    qed
  qed
  have inv2: "ag_inv n (Suc t) st2"
    unfolding ag_inv_def
  proof (intro conjI allI impI)
    show "nat n \<le> chunk_next st2" using i1 nxt by (simp add: c2)
    show "chunk_heap st2 a = chunk_heap (rs_state n (nat n - 1)) a" if "a < nat n" for a
      using that i1 i2 old by (simp add: c2)
    show "ledger_heap st2 d = ledger_heap (rs_state n (nat n - 1)) d" if "d < nat n" for d
      using that i3 by (simp add: l_old)
    show "map fst (ledger_heap st2 (nat n + r)) = map (\<lambda>j. (int r + 1 - int j) mod n) [0..<Suc (Suc t)]"
      if "r < nat n" for r
    proof -
      have "ci r = (int r + 1 - int (Suc t)) mod n" by (simp add: ci_def)
      then show ?thesis using that i4 by (simp add: l_new)
    qed
    show "\<forall>(i, a)\<in>set (ledger_heap st2 (nat n + r)).
            a < chunk_next st2 \<and> chunk_heap st2 a = \<lparr>idx = i, contributors = {0..<n}\<rparr>"
      if r: "r < nat n" for r
    proof (intro ballI, clarify)
      fix i a assume "(i, a) \<in> set (ledger_heap st2 (nat n + r))"
      then consider "(i, a) \<in> set (ledger_heap st (nat n + r))" | "i = ci r" "a = c r"
        using r by (auto simp: l_new)
      then show "a < chunk_next st2 \<and> chunk_heap st2 a = \<lparr>idx = i, contributors = {0..<n}\<rparr>"
      proof cases
        case 1
        then have "a < chunk_next st \<and> chunk_heap st a = \<lparr>idx = i, contributors = {0..<n}\<rparr>"
          using i5 r by blast
        then show ?thesis using nxt old by (simp add: c2)
      next
        case 2
        then show ?thesis using Tr [OF r] by (simp add: c2)
      qed
    qed
    show "last_heap st2 0 = (\<lambda>r. if 0 \<le> r \<and> r < n then Some ((r + 1 - int (Suc t)) mod n) else None)"
      by (rule last2)
  qed
  show ?thesis using round inv2 by blast
qed

lemma ag_rounds_inv:
  assumes n: "1 \<le> n" and inv: "ag_inv n 0 st"
  shows "k < nat n \<Longrightarrow>
         \<exists>st'. for_loop (map int [0..<k]) (ag_round n (ag_holdings n) 0) st = Inr st'
               \<and> ag_inv n k st'"
proof (induction k)
  case 0
  then show ?case using inv by simp
next
  case (Suc k)
  then have "k < nat n" by simp
  from Suc.IH [OF this] obtain st1 where
    run: "for_loop (map int [0..<k]) (ag_round n (ag_holdings n) 0) st = Inr st1"
    and inv1: "ag_inv n k st1"
    by blast
  from ag_round_inv [OF n inv1 Suc.prems, of "int k"] obtain st2 where
    round: "ag_round n (ag_holdings n) 0 (int k) st1 = Inr st2" and inv2: "ag_inv n (Suc k) st2"
    by blast
  have "for_loop (map int [0..<Suc k]) (ag_round n (ag_holdings n) 0) st = Inr st2"
    by (simp only: map_upt_Suc for_loop_snoc run sum.case round)
  then show ?case using inv2 by blast
qed

lemma ag_run_inv:
  assumes n: "1 \<le> n" and k: "k < nat n"
  shows "\<exists>st'. ag_run (rs_state n (nat n - 1)) n v (rs_holdings n) 0 (map int [0..<k])
                 = Inr (st', ag_holdings n)
               \<and> ag_inv n k st'"
proof -
  from copy_holdings_eq [OF n] obtain st0 where
    c: "copy_holdings (rs_holdings n) (rs_state n (nat n - 1)) = (ag_holdings n, st0)"
    and inv0: "ag_inv n 0 st0"
    by blast
  from ag_rounds_inv [OF n inv0 k] obtain st' where
    run: "for_loop (map int [0..<k]) (ag_round n (ag_holdings n) 0) st0 = Inr st'"
    and inv: "ag_inv n k st'"
    by blast
  have n0: "n \<noteq> 0" using n by simp
  have "ag_run (rs_state n (nat n - 1)) n v (rs_holdings n) 0 (map int [0..<k])
          = Inr (st', ag_holdings n)"
    unfolding ag_run_def by (simp only: n0 if_False c Let_def prod.case run sum.case)
  then show ?thesis using inv by blast
qed

lemma simulate_allgather_inv:
  assumes n: "1 \<le> n"
  shows "\<exists>st'. simulate_allgather (rs_state n (nat n - 1)) n v (rs_holdings n) 0
                 = Inr (st', ag_holdings n)
               \<and> ag_inv n (nat n - 1) st'"
proof -
  have m: "nat (n - 1) = nat n - 1" by simp
  have k: "nat n - 1 < nat n" using n by simp
  show ?thesis
    unfolding simulate_allgather_def py_range_def m by (rule ag_run_inv [OF n k])
qed

lemma allgather_after_inv:
  assumes n: "1 \<le> n"
  shows "\<exists>st'. allgather_after (rs_state n (nat n - 1)) n v (rs_holdings n) 0 k
                 = Inr (st', ag_holdings n)
               \<and> ag_inv n (min k (nat n - 1)) st'"
proof -
  have m: "nat (n - 1) = nat n - 1" by simp
  have t: "take k (py_range (n - 1)) = map int [0..<min k (nat n - 1)]"
    unfolding py_range_def m by (simp add: take_map min_def)
  have k: "min k (nat n - 1) < nat n" using n by simp
  show ?thesis
    unfolding allgather_after_def t by (rule ag_run_inv [OF n k])
qed

lemma allreduce_inv:
  assumes n: "1 \<le> n"
  shows "\<exists>st'. allreduce n v = Inr (st', rs_holdings n, ag_holdings n, 0)
               \<and> simulate_allgather (rs_state n (nat n - 1)) n v (rs_holdings n) 0
                   = Inr (st', ag_holdings n)
               \<and> ag_inv n (nat n - 1) st'"
proof -
  from simulate_allgather_inv [OF n, of v] obtain st' where
    a: "simulate_allgather (rs_state n (nat n - 1)) n v (rs_holdings n) 0
                 = Inr (st', ag_holdings n)"
    and inv: "ag_inv n (nat n - 1) st'"
    by blast
  have "allreduce n v = Inr (st', rs_holdings n, ag_holdings n, 0)"
    unfolding allreduce_def
    by (simp only: simulate_reduce_scatter_eq [OF n] sum.case prod.case a)
  then show ?thesis using a inv by blast
qed

lemma ring_keys:
  assumes n: "1 \<le> n"
  shows "distinct (map (\<lambda>j. (c - int j) mod n) [0..<nat n])"
    and "set (map (\<lambda>j. (c - int j) mod n) [0..<nat n]) = {0..<n}"
proof -
  have inj: "inj_on (\<lambda>j. (c - int j) mod n) {0..<nat n}"
  proof (rule inj_onI)
    fix x y assume x: "x \<in> {0..<nat n}" and y: "y \<in> {0..<nat n}"
      and e: "(c - int x) mod n = (c - int y) mod n"
    from e have "n dvd (c - int x) - (c - int y)" by (simp only: mod_eq_dvd_iff)
    then have d: "n dvd int y - int x" by (simp add: algebra_simps)
    have b: "\<bar>int y - int x\<bar> < n" using x y by auto
    have "int y - int x = 0"
    proof (rule ccontr)
      assume nz: "int y - int x \<noteq> 0"
      have "n dvd \<bar>int y - int x\<bar>" using d by simp
      moreover have "0 < \<bar>int y - int x\<bar>" using nz by simp
      ultimately show False using b zdvd_not_zless by blast
    qed
    then show "x = y" by simp
  qed
  show dist: "distinct (map (\<lambda>j. (c - int j) mod n) [0..<nat n])"
    using inj by (simp add: distinct_map)
  have sub: "set (map (\<lambda>j. (c - int j) mod n) [0..<nat n]) \<subseteq> {0..<n}"
    using n by auto
  have "card (set (map (\<lambda>j. (c - int j) mod n) [0..<nat n])) = nat n"
    by (simp only: distinct_card [OF dist] length_map length_upt diff_zero)
  then have "card (set (map (\<lambda>j. (c - int j) mod n) [0..<nat n])) = card {0..<n}"
    by simp
  then show "set (map (\<lambda>j. (c - int j) mod n) [0..<nat n]) = {0..<n}"
    using sub by (intro card_subset_eq) simp_all
qed

subsection \<open>Chunk objects from round to round\<close>

lemma chunks_grow_refl: "chunks_grow st st"
  by (simp add: chunks_grow_def)

lemma chunks_grow_trans: "chunks_grow a b \<Longrightarrow> chunks_grow b c \<Longrightarrow> chunks_grow a c"
proof -
  assume ab: "chunks_grow a b" and bc: "chunks_grow b c"
  have n: "chunk_next a \<le> chunk_next b" "chunk_next b \<le> chunk_next c"
    using ab bc by (simp_all add: chunks_grow_def)
  have "idx (chunk_heap c x) = idx (chunk_heap a x)
        \<and> contributors (chunk_heap a x) \<subseteq> contributors (chunk_heap c x)"
    if x: "x < chunk_next a" for x
  proof -
    have xb: "x < chunk_next b" using x n by simp
    have 1: "idx (chunk_heap b x) = idx (chunk_heap a x)"
            "contributors (chunk_heap a x) \<subseteq> contributors (chunk_heap b x)"
      using ab x by (simp_all add: chunks_grow_def)
    have 2: "idx (chunk_heap c x) = idx (chunk_heap b x)"
            "contributors (chunk_heap b x) \<subseteq> contributors (chunk_heap c x)"
      using bc xb by (simp_all add: chunks_grow_def)
    show ?thesis using 1 2 by auto
  qed
  then show ?thesis using n by (simp add: chunks_grow_def)
qed

lemma for_loop_preserves:
  assumes step: "\<And>x s s'. body x s = Inr s' \<Longrightarrow> R s s'"
    and refl: "\<And>s. R s s"
    and trans: "\<And>a b c. R a b \<Longrightarrow> R b c \<Longrightarrow> R a c"
  shows "for_loop xs body s = Inr s' \<Longrightarrow> R s s'"
proof (induction xs arbitrary: s)
  case Nil
  then show ?case using refl by simp
next
  case (Cons x xs)
  show ?case
  proof (cases "body x s")
    case (Inl e)
    then show ?thesis using Cons.prems by simp
  next
    case (Inr s1)
    then have "for_loop xs body s1 = Inr s'" using Cons.prems by simp
    then have "R s1 s'" by (rule Cons.IH)
    moreover have "R s s1" using Inr by (rule step)
    ultimately show ?thesis using trans by blast
  qed
qed

lemma rs_send_grow:
  "rs_send n step H r s = Inr s' \<Longrightarrow> chunks_grow (fst s) (fst s')"
  by (cases s) (auto simp: rs_send_def Let_def chunks_grow_def split: option.splits)

lemma rs_recv_grow:
  "rs_recv n step H lr T r st = Inr st' \<Longrightarrow> chunks_grow st st'"
  by (auto simp: rs_recv_def Let_def chunks_grow_def split: option.splits)

lemma ag_send_grow:
  "ag_send n H lr r s = Inr s' \<Longrightarrow> chunks_grow (fst s) (fst s')"
  by (cases s)
     (auto simp: ag_send_def Let_def chunks_grow_def deepcopy_chunk_def new_chunk_def
           split: option.splits)

lemma ag_recv_grow:
  "ag_recv H lr T r st = Inr st' \<Longrightarrow> chunks_grow st st'"
  by (auto simp: ag_recv_def Let_def chunks_grow_def split: option.splits if_splits)

lemma sends_grow:
  assumes "\<And>x s s'. body x s = Inr s' \<Longrightarrow> chunks_grow (fst s) (fst s')"
  shows "for_loop xs body s = Inr s' \<Longrightarrow> chunks_grow (fst s) (fst s')"
  by (rule for_loop_preserves [where R = "\<lambda>s s'. chunks_grow (fst s) (fst s')" and body = body])
     (use assms chunks_grow_refl chunks_grow_trans in blast)+

lemma recvs_grow:
  assumes "\<And>x s s'. body x s = Inr s' \<Longrightarrow> chunks_grow s s'"
  shows "for_loop xs body s = Inr s' \<Longrightarrow> chunks_grow s s'"
  by (rule for_loop_preserves [where R = chunks_grow and body = body])
     (use assms chunks_grow_refl chunks_grow_trans in blast)+

lemma rs_round_grow:
  assumes "rs_round n H lr step st = Inr st'"
  shows "chunks_grow st st'"
proof (cases "for_loop (py_range n) (rs_send n step H) (st, Map.empty, [])")
  case (Inl e)
  then show ?thesis using assms by (simp add: rs_round_def)
next
  case (Inr s1)
  obtain st1 T rows where s1: "s1 = (st1, T, rows)" by (cases s1) auto
  have "chunks_grow (fst (st, Map.empty :: int \<rightharpoonup> transmission, [] :: int list)) (fst s1)"
  proof (rule sends_grow [where body = "rs_send n step H"])
    show "rs_send n step H x s = Inr s' \<Longrightarrow> chunks_grow (fst s) (fst s')" for x s s'
      by (rule rs_send_grow)
    show "for_loop (py_range n) (rs_send n step H) (st, Map.empty, []) = Inr s1" by (rule Inr)
  qed
  then have a: "chunks_grow st st1" by (simp add: s1)
  have "for_loop rows (rs_recv n step H lr T) st1 = Inr st'"
    using assms Inr by (simp add: rs_round_def s1)
  then have "chunks_grow st1 st'"
  proof (rule recvs_grow [where body = "rs_recv n step H lr T", rotated])
    show "rs_recv n step H lr T x s = Inr s' \<Longrightarrow> chunks_grow s s'" for x s s'
      by (rule rs_recv_grow)
  qed
  then show ?thesis using a chunks_grow_trans by blast
qed

lemma ag_round_grow:
  assumes "ag_round n H lr step st = Inr st'"
  shows "chunks_grow st st'"
proof (cases "for_loop (py_range n) (ag_send n H lr) (st, Map.empty, [])")
  case (Inl e)
  then show ?thesis using assms by (simp add: ag_round_def)
next
  case (Inr s1)
  obtain st1 T rows where s1: "s1 = (st1, T, rows)" by (cases s1) auto
  have "chunks_grow (fst (st, Map.empty :: int \<rightharpoonup> transmission, [] :: int list)) (fst s1)"
  proof (rule sends_grow [where body = "ag_send n H lr"])
    show "ag_send n H lr x s = Inr s' \<Longrightarrow> chunks_grow (fst s) (fst s')" for x s s'
      by (rule ag_send_grow)
    show "for_loop (py_range n) (ag_send n H lr) (st, Map.empty, []) = Inr s1" by (rule Inr)
  qed
  then have a: "chunks_grow st st1" by (simp add: s1)
  have "for_loop rows (ag_recv H lr T) st1 = Inr st'"
    using assms Inr by (simp add: ag_round_def s1)
  then have "chunks_grow st1 st'"
  proof (rule recvs_grow [where body = "ag_recv H lr T", rotated])
    show "ag_recv H lr T x s = Inr s' \<Longrightarrow> chunks_grow s s'" for x s s'
      by (rule ag_recv_grow)
  qed
  then show ?thesis using a chunks_grow_trans by blast
qed

subsection \<open>The claims about the ring schedule\<close>

text \<open>
  C1: for every world size \<open>n \<ge> 2\<close> and every non-negative vector size, the
  reduce-scatter simulation returns, and for every process \<open>r\<close> the chunk stored
  under \<^verbatim>\<open>last_received[r]\<close> in the ledger of \<open>r\<close> has the full rank set
  \<open>{0..<n}\<close> as contributors; after fewer than \<open>n - 1\<close> rounds the contributor set of
  that chunk is not yet the full rank set, so this becomes true exactly at the final
  round.
\<close>

theorem reduce_scatter_fully_reduced:
  "2 \<le> n \<Longrightarrow> 0 \<le> v \<Longrightarrow>
   (\<exists>st H lr. simulate_reduce_scatter n v = Inr (st, H, lr)
       \<and> reduce_scatter_after n v (nat n - 1) = Inr (st, H, lr)
       \<and> (\<forall>r. 0 \<le> r \<and> r < n \<longrightarrow>
             (\<exists>i. last_heap st lr r = Some i \<and> held st H r i = Some {0..<n})))
   \<and> (\<forall>k<nat n - 1. \<exists>st H lr. reduce_scatter_after n v k = Inr (st, H, lr)
       \<and> (\<forall>r. 0 \<le> r \<and> r < n \<longrightarrow>
             (\<exists>i C. last_heap st lr r = Some i \<and> held st H r i = Some C \<and> C \<noteq> {0..<n})))"
proof -
  assume n2: "2 \<le> n" and "0 \<le> v"
  then have n: "1 \<le> n" by simp
  have fin: "\<exists>i. last_heap (rs_state n (nat n - 1)) 0 r = Some i
                \<and> held (rs_state n (nat n - 1)) (rs_holdings n) r i = Some {0..<n}"
    if r: "0 \<le> r \<and> r < n" for r
  proof -
    have "held (rs_state n (nat n - 1)) (rs_holdings n) r ((r - int (nat n - 1)) mod n)
            = Some (ring_span n ((r - int (nat n - 1)) mod n) (nat n - 1))"
      using r by (intro held_rs_state [OF n]) simp_all
    moreover have "last_heap (rs_state n (nat n - 1)) 0 r = Some ((r - int (nat n - 1)) mod n)"
      using r by (intro held_rs_state [OF n]) simp_all
    ultimately show ?thesis by (simp only: ring_span_full [OF n]) blast
  qed
  have a: "reduce_scatter_after n v (nat n - 1) = Inr (rs_state n (nat n - 1), rs_holdings n, 0)"
    using reduce_scatter_after_eq [OF n, of v "nat n - 1"] by simp
  have part1: "\<exists>st H lr. simulate_reduce_scatter n v = Inr (st, H, lr)
       \<and> reduce_scatter_after n v (nat n - 1) = Inr (st, H, lr)
       \<and> (\<forall>r. 0 \<le> r \<and> r < n \<longrightarrow>
             (\<exists>i. last_heap st lr r = Some i \<and> held st H r i = Some {0..<n}))"
    using simulate_reduce_scatter_eq [OF n, of v] a fin by blast
  have part2: "\<exists>st H lr. reduce_scatter_after n v k = Inr (st, H, lr)
       \<and> (\<forall>r. 0 \<le> r \<and> r < n \<longrightarrow>
             (\<exists>i C. last_heap st lr r = Some i \<and> held st H r i = Some C \<and> C \<noteq> {0..<n}))"
    if k: "k < nat n - 1" for k
  proof -
    have m: "min k (nat n - 1) = k" using k by simp
    have e: "reduce_scatter_after n v k = Inr (rs_state n k, rs_holdings n, 0)"
      using reduce_scatter_after_eq [OF n, of v k] by (simp only: m)
    have "\<exists>i C. last_heap (rs_state n k) 0 r = Some i
                \<and> held (rs_state n k) (rs_holdings n) r i = Some C \<and> C \<noteq> {0..<n}"
      if r: "0 \<le> r \<and> r < n" for r
    proof -
      have "held (rs_state n k) (rs_holdings n) r ((r - int k) mod n)
              = Some (ring_span n ((r - int k) mod n) k)"
        using r by (intro held_rs_state [OF n]) simp_all
      moreover have "last_heap (rs_state n k) 0 r = Some ((r - int k) mod n)"
        using r by (intro held_rs_state [OF n]) simp_all
      ultimately show ?thesis using ring_span_partial [OF n k] by blast
    qed
    then show ?thesis using e by blast
  qed
  show ?thesis using part1 part2 by blast
qed

theorem reduce_scatter_fully_reduced_witness:
  "(2::int) \<le> 3 \<and> (0::int) \<le> 12
   \<and> (\<exists>st H lr. simulate_reduce_scatter 3 12 = Inr (st, H, lr)
         \<and> (\<exists>i. last_heap st lr 0 = Some i \<and> held st H 0 i = Some {0..<3}))"
proof -
  have "\<exists>st H lr. simulate_reduce_scatter 3 12 = Inr (st, H, lr)
       \<and> reduce_scatter_after 3 12 (nat 3 - 1) = Inr (st, H, lr)
       \<and> (\<forall>r. 0 \<le> r \<and> r < 3 \<longrightarrow>
             (\<exists>i. last_heap st lr r = Some i \<and> held st H r i = Some {0..<3}))"
    using reduce_scatter_fully_reduced [of 3 12] by simp
  then obtain st H lr where
    a: "simulate_reduce_scatter 3 12 = Inr (st, H, lr)"
    and b: "\<forall>r. 0 \<le> r \<and> r < 3 \<longrightarrow>
             (\<exists>i. last_heap st lr r = Some i \<and> held st H r i = Some {0..<3})"
    by blast
  from b have "\<exists>i. last_heap st lr 0 = Some i \<and> held st H 0 i = Some {0..<3}" by simp
  then have ex: "\<exists>st H lr. simulate_reduce_scatter 3 12 = Inr (st, H, lr)
         \<and> (\<exists>i. last_heap st lr 0 = Some i \<and> held st H 0 i = Some {0..<3})"
    using a by blast
  show ?thesis
  proof (intro conjI)
    show "(2::int) \<le> 3" by simp
    show "(0::int) \<le> 12" by simp
    show "\<exists>st H lr. simulate_reduce_scatter 3 12 = Inr (st, H, lr)
         \<and> (\<exists>i. last_heap st lr 0 = Some i \<and> held st H 0 i = Some {0..<3})"
      by (rule ex)
  qed
qed

text \<open>
  C2: for every world size \<open>n \<ge> 2\<close>, after the allgather simulation has run its
  \<open>n - 1\<close> rounds from the final state of reduce-scatter, the ledger of every process
  has exactly \<open>n\<close> entries, one for each chunk index in \<open>[0, n)\<close>, and the chunk of
  every entry has the full rank set as contributors.
\<close>

theorem allgather_complete:
  "2 \<le> n \<Longrightarrow>
   \<exists>st H H' lr. allreduce n v = Inr (st, H, H', lr)
     \<and> (\<forall>r. 0 \<le> r \<and> r < n \<longrightarrow>
          length (ledger_keys st H' r) = nat n \<and> distinct (ledger_keys st H' r)
          \<and> set (ledger_keys st H' r) = {0..<n}
          \<and> (\<forall>i. 0 \<le> i \<and> i < n \<longrightarrow> held st H' r i = Some {0..<n}))"
proof -
  assume "2 \<le> n"
  then have n: "1 \<le> n" by simp
  from allreduce_inv [OF n, of v] obtain st where
    run: "allreduce n v = Inr (st, rs_holdings n, ag_holdings n, 0)"
    and inv: "ag_inv n (nat n - 1) st"
    by blast
  have s: "Suc (nat n - 1) = nat n" using n by simp
  have i4: "\<forall>r<nat n. map fst (ledger_heap st (nat n + r))
                      = map (\<lambda>j. (int r + 1 - int j) mod n) [0..<nat n]"
    and i5: "\<forall>r<nat n. \<forall>(i, a)\<in>set (ledger_heap st (nat n + r)).
            a < chunk_next st \<and> chunk_heap st a = \<lparr>idx = i, contributors = {0..<n}\<rparr>"
    using inv unfolding ag_inv_def s by blast+
  have "length (ledger_keys st (ag_holdings n) r) = nat n
          \<and> distinct (ledger_keys st (ag_holdings n) r)
          \<and> set (ledger_keys st (ag_holdings n) r) = {0..<n}
          \<and> (\<forall>i. 0 \<le> i \<and> i < n \<longrightarrow> held st (ag_holdings n) r i = Some {0..<n})"
    if r: "0 \<le> r \<and> r < n" for r
  proof -
    have rn: "nat r < nat n" using r by simp
    have h: "map_of (ag_holdings n) r = Some (nat n + nat r)"
      using r by (simp add: map_of_ag_holdings)
    let ?L = "ledger_heap st (nat n + nat r)"
    have keys: "map fst ?L = map (\<lambda>j. (r + 1 - int j) mod n) [0..<nat n]"
      using i4 rn r by simp
    have lk: "ledger_keys st (ag_holdings n) r = map (\<lambda>j. (r + 1 - int j) mod n) [0..<nat n]"
      by (simp add: ledger_keys_def h keys)
    have k1: "length (ledger_keys st (ag_holdings n) r) = nat n" by (simp add: lk)
    have k2: "distinct (ledger_keys st (ag_holdings n) r)"
      unfolding lk by (rule ring_keys [OF n])
    have k3: "set (ledger_keys st (ag_holdings n) r) = {0..<n}"
      unfolding lk by (rule ring_keys [OF n])
    have k4: "held st (ag_holdings n) r i = Some {0..<n}" if i: "0 \<le> i \<and> i < n" for i
    proof -
      have "i \<in> set (map fst ?L)" using k3 i by (simp add: lk keys)
      then have "i \<in> fst ` set ?L" by simp
      then have "map_of ?L i \<noteq> None" by (simp add: map_of_eq_None_iff)
      then obtain a where a: "map_of ?L i = Some a" by blast
      then have "(i, a) \<in> set ?L" by (rule map_of_SomeD)
      then have "chunk_heap st a = \<lparr>idx = i, contributors = {0..<n}\<rparr>"
        using i5 rn by blast
      then show ?thesis by (simp add: held_def h a)
    qed
    show ?thesis using k1 k2 k3 k4 by blast
  qed
  then show ?thesis using run by blast
qed

theorem allgather_complete_witness:
  "(2::int) \<le> 3
   \<and> (\<exists>st H H' lr. allreduce 3 12 = Inr (st, H, H', lr)
         \<and> length (ledger_keys st H' 0) = 3 \<and> set (ledger_keys st H' 0) = {0..<3}
         \<and> held st H' 0 2 = Some {0..<3})"
proof -
  from allgather_complete [of 3 12] obtain st H H' lr where
    a: "allreduce 3 12 = Inr (st, H, H', lr)"
    and b: "\<forall>r. 0 \<le> r \<and> r < 3 \<longrightarrow>
          length (ledger_keys st H' r) = nat 3 \<and> distinct (ledger_keys st H' r)
          \<and> set (ledger_keys st H' r) = {0..<3}
          \<and> (\<forall>i. 0 \<le> i \<and> i < 3 \<longrightarrow> held st H' r i = Some {0..<3})"
    by auto
  from b have "length (ledger_keys st H' 0) = nat 3 \<and> set (ledger_keys st H' 0) = {0..<3}
          \<and> (\<forall>i. 0 \<le> i \<and> i < 3 \<longrightarrow> held st H' 0 i = Some {0..<3})"
    by simp
  then have "length (ledger_keys st H' 0) = 3 \<and> set (ledger_keys st H' 0) = {0..<3}
          \<and> held st H' 0 2 = Some {0..<3}"
    by simp
  then have ex: "\<exists>st H H' lr. allreduce 3 12 = Inr (st, H, H', lr)
         \<and> length (ledger_keys st H' 0) = 3 \<and> set (ledger_keys st H' 0) = {0..<3}
         \<and> held st H' 0 2 = Some {0..<3}"
    using a by blast
  show ?thesis
  proof (intro conjI)
    show "(2::int) \<le> 3" by simp
    show "\<exists>st H H' lr. allreduce 3 12 = Inr (st, H, H', lr)
         \<and> length (ledger_keys st H' 0) = 3 \<and> set (ledger_keys st H' 0) = {0..<3}
         \<and> held st H' 0 2 = Some {0..<3}"
      by (rule ex)
  qed
qed

lemma rs_final_fields:
  assumes n: "1 \<le> n"
  shows "chunk_next (rs_state n (nat n - 1)) = nat n"
    and "ledger_next (rs_state n (nat n - 1)) = nat n"
    and "ledger_heap (rs_state n (nat n - 1)) d
           = (if d < nat n then [((int d + 1) mod n, nat ((int d + 1) mod n))] else [])"
    and "0 \<le> r \<and> r < n \<Longrightarrow> last_heap (rs_state n (nat n - 1)) 0 r = Some ((r + 1) mod n)"
proof -
  show "chunk_next (rs_state n (nat n - 1)) = nat n"
    by (simp only: rs_state_final [OF n] store.simps)
  show "ledger_next (rs_state n (nat n - 1)) = nat n"
    by (simp only: rs_state_final [OF n] store.simps)
  show "ledger_heap (rs_state n (nat n - 1)) d
           = (if d < nat n then [((int d + 1) mod n, nat ((int d + 1) mod n))] else [])"
    by (simp only: rs_state_final [OF n] store.simps)
  show "last_heap (rs_state n (nat n - 1)) 0 r = Some ((r + 1) mod n)" if "0 \<le> r \<and> r < n"
    using that by (simp only: rs_state_final [OF n] store.simps) simp
qed

lemma ag_final_last:
  assumes n: "1 \<le> n" and inv: "ag_inv n (nat n - 1) st" and r: "0 \<le> r \<and> r < n"
  shows "last_heap st 0 r = Some ((r + 2) mod n)"
proof -
  have "last_heap st 0 = (\<lambda>r. if 0 \<le> r \<and> r < n then Some ((r + 1 - int (nat n - 1)) mod n) else None)"
    using inv unfolding ag_inv_def by blast
  then have "last_heap st 0 r = Some ((r + 1 - int (nat n - 1)) mod n)" using r by simp
  also have "(r + 1 - int (nat n - 1)) mod n = (r + 1 + 1) mod n"
    by (rule mod_minus_last [OF n])
  finally show ?thesis by (simp add: add.assoc)
qed

text \<open>
  C7: \<^verbatim>\<open>simulate_allgather\<close> is meant to leave the outputs of phase 1 as phase 1
  returned them, and it deep-copies \<^verbatim>\<open>initial_holdings\<close> to that end. The dict
  \<^verbatim>\<open>last_received\<close>, passed beside it, is not copied: the assignment
  \<^verbatim>\<open>last_received[r] = recv_idx\<close> writes into the caller's object. For two processes
  the caller reads \<open>last_recv[0] = 1\<close> after phase 1 and \<open>last_recv[0] = 0\<close> after
  phase 2.
\<close>

theorem allgather_mutates_last_received:
  "last_received_after_phase1 2 8 0 = Some 1 \<and> last_received_after_phase2 2 8 0 = Some 0
   \<and> last_received_after_phase2 2 8 0 \<noteq> last_received_after_phase1 2 8 0"
proof -
  have n: "(1::int) \<le> 2" by simp
  have r: "(0::int) \<le> 0 \<and> (0::int) < 2" by simp
  have "last_received_after_phase1 2 8 0 = last_heap (rs_state 2 (nat 2 - 1)) 0 0"
    unfolding last_received_after_phase1_def
    by (simp only: simulate_reduce_scatter_eq [OF n] sum.case prod.case)
  also have "\<dots> = Some ((0 + 1) mod 2)" by (rule rs_final_fields (4) [OF n r])
  finally have a: "last_received_after_phase1 2 8 0 = Some 1" by simp
  from allreduce_inv [OF n, of 8] obtain st where
    run: "allreduce 2 8 = Inr (st, rs_holdings 2, ag_holdings 2, 0)"
    and inv: "ag_inv 2 (nat 2 - 1) st"
    by blast
  have "last_received_after_phase2 2 8 0 = last_heap st 0 0"
    unfolding last_received_after_phase2_def by (simp only: run sum.case prod.case)
  also have "\<dots> = Some ((0 + 2) mod 2)" by (rule ag_final_last [OF n inv r])
  finally have b: "last_received_after_phase2 2 8 0 = Some 0" by simp
  show ?thesis using a b by simp
qed

text \<open>
  The ledgers, which are copied, are after \<^verbatim>\<open>simulate_allgather\<close> as phase 1 left them,
  for every world size \<open>n \<ge> 1\<close>: every ledger dict and every chunk object that
  exists at the end of phase 1 has the same contents. In the dict \<^verbatim>\<open>last_received\<close>
  the entry of \<open>r\<close> is \<open>(r + 1) mod n\<close> at the end of phase 1 and \<open>(r + 2) mod n\<close>
  after phase 2.
\<close>

lemma allgather_keeps_ledgers:
  "1 \<le> n \<Longrightarrow>
   \<exists>st1 st2 H H' lr. simulate_reduce_scatter n v = Inr (st1, H, lr)
     \<and> simulate_allgather st1 n v H lr = Inr (st2, H')
     \<and> (\<forall>d<ledger_next st1. ledger_heap st2 d = ledger_heap st1 d)
     \<and> (\<forall>a<chunk_next st1. chunk_heap st2 a = chunk_heap st1 a)
     \<and> (\<forall>r i. held st2 H r i = held st1 H r i)
     \<and> (\<forall>r. ledger_keys st2 H r = ledger_keys st1 H r)
     \<and> (\<forall>r. 0 \<le> r \<and> r < n \<longrightarrow>
           last_heap st1 lr r = Some ((r + 1) mod n)
           \<and> last_heap st2 lr r = Some ((r + 2) mod n))"
proof -
  assume n: "1 \<le> n"
  define st1 where "st1 = rs_state n (nat n - 1)"
  note fields = rs_final_fields [OF n, folded st1_def]
  from allreduce_inv [OF n, of v, folded st1_def] obtain st2 where
    ag: "simulate_allgather st1 n v (rs_holdings n) 0 = Inr (st2, ag_holdings n)"
    and inv: "ag_inv n (nat n - 1) st2"
    by blast
  have i2: "\<forall>a<nat n. chunk_heap st2 a = chunk_heap st1 a"
    and i3: "\<forall>d<nat n. ledger_heap st2 d = ledger_heap st1 d"
    using inv unfolding ag_inv_def st1_def by blast+
  have f1: "\<forall>d<ledger_next st1. ledger_heap st2 d = ledger_heap st1 d"
    using i3 by (simp only: fields)
  have f2: "\<forall>a<chunk_next st1. chunk_heap st2 a = chunk_heap st1 a"
    using i2 by (simp only: fields)
  have f3: "held st2 (rs_holdings n) r i = held st1 (rs_holdings n) r i" for r i
  proof (cases "0 \<le> r \<and> r < n")
    case False
    then show ?thesis by (auto simp: held_def map_of_rs_holdings)
  next
    case True
    then have rn: "nat r < nat n" by simp
    have h: "map_of (rs_holdings n) r = Some (nat r)"
      using True by (simp add: map_of_rs_holdings)
    have l: "ledger_heap st2 (nat r) = ledger_heap st1 (nat r)" using i3 rn by blast
    have "ledger_heap st1 (nat r)
            = (if nat r < nat n
               then [((int (nat r) + 1) mod n, nat ((int (nat r) + 1) mod n))] else [])"
      by (rule fields (3))
    then have l1: "ledger_heap st1 (nat r) = [((r + 1) mod n, nat ((r + 1) mod n))]"
      using rn True by simp
    have "nat ((r + 1) mod n) < nat n" using n by simp
    then have c: "chunk_heap st2 (nat ((r + 1) mod n)) = chunk_heap st1 (nat ((r + 1) mod n))"
      using i2 by blast
    show ?thesis by (simp add: held_def h l l1 c)
  qed
  have f4: "ledger_keys st2 (rs_holdings n) r = ledger_keys st1 (rs_holdings n) r" for r
  proof (cases "0 \<le> r \<and> r < n")
    case False
    then show ?thesis by (auto simp: ledger_keys_def map_of_rs_holdings)
  next
    case True
    then have rn: "nat r < nat n" by simp
    have h: "map_of (rs_holdings n) r = Some (nat r)"
      using True by (simp add: map_of_rs_holdings)
    have l: "ledger_heap st2 (nat r) = ledger_heap st1 (nat r)" using i3 rn by blast
    show ?thesis by (simp add: ledger_keys_def h l)
  qed
  have f5: "last_heap st1 0 r = Some ((r + 1) mod n) \<and> last_heap st2 0 r = Some ((r + 2) mod n)"
    if r: "0 \<le> r \<and> r < n" for r
    using fields (4) [OF r] ag_final_last [OF n inv r] by simp
  show ?thesis
  proof (intro exI conjI allI impI)
    show "simulate_reduce_scatter n v = Inr (st1, rs_holdings n, 0)"
      unfolding st1_def by (rule simulate_reduce_scatter_eq [OF n])
    show "simulate_allgather st1 n v (rs_holdings n) 0 = Inr (st2, ag_holdings n)"
      by (rule ag)
    show "ledger_heap st2 d = ledger_heap st1 d" if "d < ledger_next st1" for d
      using f1 that by blast
    show "chunk_heap st2 a = chunk_heap st1 a" if "a < chunk_next st1" for a
      using f2 that by blast
    show "held st2 (rs_holdings n) r i = held st1 (rs_holdings n) r i" for r i
      by (rule f3)
    show "ledger_keys st2 (rs_holdings n) r = ledger_keys st1 (rs_holdings n) r" for r
      by (rule f4)
    show "last_heap st1 0 r = Some ((r + 1) mod n)" if "0 \<le> r \<and> r < n" for r
      using f5 [OF that] by blast
    show "last_heap st2 0 r = Some ((r + 2) mod n)" if "0 \<le> r \<and> r < n" for r
      using f5 [OF that] by blast
  qed
qed

lemma allgather_keeps_ledgers_witness:
  "(1::int) \<le> 3
   \<and> (\<exists>st1 st2 H H' lr. simulate_reduce_scatter 3 12 = Inr (st1, H, lr)
         \<and> simulate_allgather st1 3 12 H lr = Inr (st2, H')
         \<and> held st2 H 0 1 = held st1 H 0 1
         \<and> last_heap st1 lr 0 = Some 1 \<and> last_heap st2 lr 0 = Some 2)"
proof -
  from allgather_keeps_ledgers [of 3 12] obtain st1 st2 H H' lr where
    a: "simulate_reduce_scatter 3 12 = Inr (st1, H, lr)"
    and b: "simulate_allgather st1 3 12 H lr = Inr (st2, H')"
    and c: "\<forall>r i. held st2 H r i = held st1 H r i"
    and d: "\<forall>r. 0 \<le> r \<and> r < 3 \<longrightarrow>
           last_heap st1 lr r = Some ((r + 1) mod 3)
           \<and> last_heap st2 lr r = Some ((r + 2) mod 3)"
    by auto
  from d have "last_heap st1 lr 0 = Some ((0 + 1) mod 3) \<and> last_heap st2 lr 0 = Some ((0 + 2) mod 3)"
    by simp
  then have e: "last_heap st1 lr 0 = Some 1 \<and> last_heap st2 lr 0 = Some 2" by simp
  have ex: "\<exists>st1 st2 H H' lr. simulate_reduce_scatter 3 12 = Inr (st1, H, lr)
         \<and> simulate_allgather st1 3 12 H lr = Inr (st2, H')
         \<and> held st2 H 0 1 = held st1 H 0 1
         \<and> last_heap st1 lr 0 = Some 1 \<and> last_heap st2 lr 0 = Some 2"
    using a b c e by blast
  show ?thesis
  proof (intro conjI)
    show "(1::int) \<le> 3" by simp
    show "\<exists>st1 st2 H H' lr. simulate_reduce_scatter 3 12 = Inr (st1, H, lr)
         \<and> simulate_allgather st1 3 12 H lr = Inr (st2, H')
         \<and> held st2 H 0 1 = held st1 H 0 1
         \<and> last_heap st1 lr 0 = Some 1 \<and> last_heap st2 lr 0 = Some 2"
      by (rule ex)
  qed
qed

lemma rs_holdings_2: "rs_holdings 2 = [(0, 0), (1, 1)]"
  by (simp add: rs_holdings_def numeral_2_eq_2)

text \<open>
  With \<^verbatim>\<open>last_received\<close> overwritten, the results of phase 1 are no longer an input
  of phase 2: for two processes a second \<^verbatim>\<open>simulate_allgather\<close> on the same results
  looks up, for rank 0, the chunk index 0 in a ledger that holds chunk 1 only, and
  raises KeyError.
\<close>

lemma allgather_twice_key_error:
  "\<exists>st1 H lr st2 H'. simulate_reduce_scatter 2 8 = Inr (st1, H, lr)
      \<and> simulate_allgather st1 2 8 H lr = Inr (st2, H')
      \<and> simulate_allgather st2 2 8 H lr = Inl KeyError"
proof -
  have n: "(1::int) \<le> 2" by simp
  define st1 where "st1 = rs_state 2 (nat 2 - 1)"
  note fields = rs_final_fields [OF n, folded st1_def]
  have p1: "simulate_reduce_scatter 2 8 = Inr (st1, rs_holdings 2, 0)"
    unfolding st1_def by (rule simulate_reduce_scatter_eq [OF n])
  from allreduce_inv [OF n, of 8, folded st1_def] obtain st2 where
    ag: "simulate_allgather st1 2 8 (rs_holdings 2) 0 = Inr (st2, ag_holdings 2)"
    and inv: "ag_inv 2 (nat 2 - 1) st2"
    by blast
  have i3: "\<forall>d<nat 2. ledger_heap st2 d = ledger_heap st1 d"
    using inv unfolding ag_inv_def st1_def by blast
  have "ledger_heap st1 0 = (if 0 < nat 2 then [((int 0 + 1) mod 2, nat ((int 0 + 1) mod 2))] else [])"
    by (rule fields (3))
  then have l0: "ledger_heap st2 0 = [(1, 1)]" using i3 by simp
  have "ledger_heap st1 1 = (if 1 < nat 2 then [((int 1 + 1) mod 2, nat ((int 1 + 1) mod 2))] else [])"
    by (rule fields (3))
  then have l1: "ledger_heap st2 1 = [(0, 0)]" using i3 by simp
  have r0: "(0::int) \<le> 0 \<and> (0::int) < 2" by simp
  have "last_heap st2 0 0 = Some ((0 + 2) mod 2)" by (rule ag_final_last [OF n inv r0])
  then have la: "last_heap st2 0 0 = Some 0" by simp
  obtain H2 s1 where ch: "copy_holdings (rs_holdings 2) st2 = (H2, s1)" by (cases "copy_holdings (rs_holdings 2) st2")
  have props: "\<exists>d a. map_of H2 0 = Some d \<and> ledger_heap s1 d = [(1, a)] \<and> last_heap s1 0 0 = Some 0"
    using ch l0 l1 la
    by (auto simp add: copy_holdings_def rs_holdings_2 copy_ledger_single new_ledger_def Let_def
          split: if_splits prod.splits)
  then obtain d a where d: "map_of H2 0 = Some d" "ledger_heap s1 d = [(1, a)]"
    "last_heap s1 0 0 = Some 0" by blast
  have r2: "py_range 2 = [0, 1]" "py_range 1 = [0]" by (simp_all add: py_range_def upt_rec)
  have send: "ag_send 2 H2 0 0 (s1, Map.empty, []) = Inl KeyError"
    using d by (simp add: ag_send_def)
  have round: "ag_round 2 H2 0 0 s1 = Inl KeyError"
    by (simp add: ag_round_def r2 send)
  have "simulate_allgather st2 2 8 (rs_holdings 2) 0 = Inl KeyError"
    by (simp add: simulate_allgather_def ag_run_def ch r2 round)
  then show ?thesis using p1 ag by blast
qed

subsection \<open>The ledgers from round to round\<close>

lemma held_rs_state_iff:
  assumes n: "1 \<le> n"
  shows "held (rs_state n s) (rs_holdings n) r i
         = (if 0 \<le> r \<and> r < n \<and> i = (r - int s) mod n then Some (ring_span n i s) else None)"
proof (cases "0 \<le> r \<and> r < n")
  case False
  then show ?thesis by (auto simp: held_def map_of_rs_holdings)
next
  case True
  have a: "nat ((r - int s) mod n) < nat n" using n by simp
  have b: "nat r < nat n" using True by simp
  have c: "0 \<le> (r - int s) mod n" using n by simp
  show ?thesis
    using n True a b c by (auto simp add: held_def map_of_rs_holdings rs_state_def)
qed

lemma ring_span_mono: "s \<le> t \<Longrightarrow> ring_span n a s \<subseteq> ring_span n a t"
  unfolding ring_span_def by (intro image_mono) simp

lemma held_ag_inv:
  assumes n: "1 \<le> n" and inv: "ag_inv n t st"
  shows "held st (ag_holdings n) r i
         = (if 0 \<le> r \<and> r < n \<and> i \<in> (\<lambda>j. (r + 1 - int j) mod n) ` {..t}
            then Some {0..<n} else None)"
proof (cases "0 \<le> r \<and> r < n")
  case False
  then show ?thesis by (auto simp: held_def map_of_ag_holdings)
next
  case True
  then have rn: "nat r < nat n" by simp
  have h: "map_of (ag_holdings n) r = Some (nat n + nat r)"
    using True by (simp add: map_of_ag_holdings)
  let ?L = "ledger_heap st (nat n + nat r)"
  have i4: "\<forall>r<nat n. map fst (ledger_heap st (nat n + r))
                      = map (\<lambda>j. (int r + 1 - int j) mod n) [0..<Suc t]"
    and i5: "\<forall>r<nat n. \<forall>(i, a)\<in>set (ledger_heap st (nat n + r)).
            a < chunk_next st \<and> chunk_heap st a = \<lparr>idx = i, contributors = {0..<n}\<rparr>"
    using inv unfolding ag_inv_def by blast+
  have keys: "map fst ?L = map (\<lambda>j. (r + 1 - int j) mod n) [0..<Suc t]"
    using i4 rn True by simp
  have ks: "fst ` set ?L = (\<lambda>j. (r + 1 - int j) mod n) ` {..t}"
  proof -
    have "fst ` set ?L = set (map fst ?L)" by simp
    also have "\<dots> = (\<lambda>j. (r + 1 - int j) mod n) ` set [0..<Suc t]"
      unfolding keys by (simp only: set_map)
    also have "set [0..<Suc t] = {..t}" by auto
    finally show ?thesis .
  qed
  show ?thesis
  proof (cases "i \<in> fst ` set ?L")
    case False
    then have "map_of ?L i = None" by (simp add: map_of_eq_None_iff)
    then show ?thesis using False True unfolding ks by (simp add: held_def h)
  next
    case in_keys: True
    then have "map_of ?L i \<noteq> None" by (simp add: map_of_eq_None_iff)
    then obtain a where a: "map_of ?L i = Some a" by blast
    then have "(i, a) \<in> set ?L" by (rule map_of_SomeD)
    then have "chunk_heap st a = \<lparr>idx = i, contributors = {0..<n}\<rparr>"
      using i5 rn by blast
    then show ?thesis using in_keys True unfolding ks by (simp add: held_def h a)
  qed
qed

lemma contributors_grow_phase1:
  assumes n: "1 \<le> n"
  shows "\<exists>st st' H lr. reduce_scatter_after n v k = Inr (st, H, lr)
        \<and> reduce_scatter_after n v (Suc k) = Inr (st', H, lr)
        \<and> (\<forall>r i C. held st H r i = Some C \<longrightarrow>
              (\<exists>r' C'. held st' H r' i = Some C')
              \<and> (\<forall>r' C'. held st' H r' i = Some C' \<longrightarrow> C \<subseteq> C'))"
proof -
  define s where "s = min k (nat n - 1)"
  define t where "t = min (Suc k) (nat n - 1)"
  have st: "s \<le> t" by (simp add: s_def t_def)
  have a: "reduce_scatter_after n v k = Inr (rs_state n s, rs_holdings n, 0)"
    unfolding s_def by (rule reduce_scatter_after_eq [OF n])
  have b: "reduce_scatter_after n v (Suc k) = Inr (rs_state n t, rs_holdings n, 0)"
    unfolding t_def by (rule reduce_scatter_after_eq [OF n])
  have c: "(\<exists>r' C'. held (rs_state n t) (rs_holdings n) r' i = Some C')
              \<and> (\<forall>r' C'. held (rs_state n t) (rs_holdings n) r' i = Some C' \<longrightarrow> C \<subseteq> C')"
    if h: "held (rs_state n s) (rs_holdings n) r i = Some C" for r i C
  proof -
    from h have r: "0 \<le> r \<and> r < n" and i: "i = (r - int s) mod n" and C: "C = ring_span n i s"
      unfolding held_rs_state_iff [OF n] by (auto split: if_splits)
    have i0: "0 \<le> i" "i < n" using n i by simp_all
    let ?r' = "(i + int t) mod n"
    have "(?r' - int t) mod n = (i + int t - int t) mod n" by (simp only: mod_diff_left_eq)
    also have "\<dots> = i" using i0 by simp
    finally have e: "i = (?r' - int t) mod n" by simp
    have r': "0 \<le> ?r' \<and> ?r' < n" using n by simp
    have "held (rs_state n t) (rs_holdings n) ?r' i = Some (ring_span n i t)"
      unfolding held_rs_state_iff [OF n] using r' e by simp
    then have ex: "\<exists>r' C'. held (rs_state n t) (rs_holdings n) r' i = Some C'" by blast
    have sup: "C \<subseteq> C'" if "held (rs_state n t) (rs_holdings n) r' i = Some C'" for r' C'
    proof -
      from that have "C' = ring_span n i t"
        unfolding held_rs_state_iff [OF n] by (auto split: if_splits)
      then show ?thesis using C ring_span_mono [OF st] by simp
    qed
    show ?thesis using ex sup by blast
  qed
  show ?thesis using a b c by blast
qed

lemma contributors_grow_phase2:
  assumes n: "1 \<le> n"
  shows "\<exists>st1 H1 lr st0 st st' H. simulate_reduce_scatter n v = Inr (st1, H1, lr)
        \<and> allgather_after st1 n v H1 lr 0 = Inr (st0, H)
        \<and> (\<forall>r i. held st0 H r i = held st1 H1 r i)
        \<and> allgather_after st1 n v H1 lr k = Inr (st, H)
        \<and> allgather_after st1 n v H1 lr (Suc k) = Inr (st', H)
        \<and> (\<forall>r i C. held st H r i = Some C \<longrightarrow>
              (\<exists>C'. held st' H r i = Some C' \<and> C \<subseteq> C')
              \<and> (\<forall>r' C'. held st' H r' i = Some C' \<longrightarrow> C \<subseteq> C'))"
proof -
  define s where "s = min k (nat n - 1)"
  define t where "t = min (Suc k) (nat n - 1)"
  have st: "s \<le> t" by (simp add: s_def t_def)
  let ?st1 = "rs_state n (nat n - 1)"
  have p1: "simulate_reduce_scatter n v = Inr (?st1, rs_holdings n, 0)"
    by (rule simulate_reduce_scatter_eq [OF n])
  from allgather_after_inv [OF n, of v 0] obtain st0 where
    r0: "allgather_after ?st1 n v (rs_holdings n) 0 0 = Inr (st0, ag_holdings n)"
    and inv0: "ag_inv n 0 st0" by auto
  from allgather_after_inv [OF n, of v k] obtain sa where
    ra: "allgather_after ?st1 n v (rs_holdings n) 0 k = Inr (sa, ag_holdings n)"
    and inva: "ag_inv n s sa" unfolding s_def by blast
  from allgather_after_inv [OF n, of v "Suc k"] obtain sb where
    rb: "allgather_after ?st1 n v (rs_holdings n) 0 (Suc k) = Inr (sb, ag_holdings n)"
    and invb: "ag_inv n t sb" unfolding t_def by blast
  have same: "held st0 (ag_holdings n) r i = held ?st1 (rs_holdings n) r i" for r i
  proof -
    have m: "(r - int (nat n - 1)) mod n = (r + 1) mod n"
      by (rule mod_minus_last [OF n])
    have f: "ring_span n ((r + 1) mod n) (nat n - 1) = {0..<n}"
      by (rule ring_span_full [OF n])
    show ?thesis
      unfolding held_ag_inv [OF n inv0] held_rs_state_iff [OF n] m
      using f by auto
  qed
  have grow: "(\<exists>C'. held sb (ag_holdings n) r i = Some C' \<and> C \<subseteq> C')
              \<and> (\<forall>r' C'. held sb (ag_holdings n) r' i = Some C' \<longrightarrow> C \<subseteq> C')"
    if h: "held sa (ag_holdings n) r i = Some C" for r i C
  proof -
    from h have r: "0 \<le> r \<and> r < n" and i: "i \<in> (\<lambda>j. (r + 1 - int j) mod n) ` {..s}"
      and C: "C = {0..<n}"
      unfolding held_ag_inv [OF n inva] by (auto split: if_splits)
    have "(\<lambda>j. (r + 1 - int j) mod n) ` {..s} \<subseteq> (\<lambda>j. (r + 1 - int j) mod n) ` {..t}"
      using st by (intro image_mono) simp
    then have "i \<in> (\<lambda>j. (r + 1 - int j) mod n) ` {..t}" using i by (rule subsetD)
    then have "held sb (ag_holdings n) r i = Some {0..<n}"
      unfolding held_ag_inv [OF n invb] using r by simp
    moreover have "C \<subseteq> C'" if "held sb (ag_holdings n) r' i = Some C'" for r' C'
      using that C unfolding held_ag_inv [OF n invb] by (auto split: if_splits)
    ultimately show ?thesis using C by blast
  qed
  show ?thesis using p1 r0 same ra rb grow by blast
qed


text \<open>
  C9: for every world size \<open>n \<ge> 1\<close> and every number \<open>k\<close> of rounds already run, in
  the reduce-scatter phase and in the allgather phase that follows it, take the
  ledgers before and after the next round. In reduce-scatter, a chunk index \<open>i\<close> that
  some process holds with contributor set \<open>C\<close> before the round is still held by a
  process after the round, and whoever holds \<open>i\<close> after the round holds it with a
  superset of \<open>C\<close>. In allgather, which starts from copies of the ledgers of phase 1
  with the same contributor sets, a chunk that process \<open>r\<close> holds under index \<open>i\<close>
  with contributor set \<open>C\<close> before the round is still held by \<open>r\<close> under \<open>i\<close> after the
  round, with a superset of \<open>C\<close>, and whoever holds \<open>i\<close> after the round holds it with
  a superset of \<open>C\<close>.
\<close>

theorem contributors_only_grow:
  "1 \<le> n \<Longrightarrow>
   (\<exists>st st' H lr. reduce_scatter_after n v k = Inr (st, H, lr)
        \<and> reduce_scatter_after n v (Suc k) = Inr (st', H, lr)
        \<and> (\<forall>r i C. held st H r i = Some C \<longrightarrow>
              (\<exists>r' C'. held st' H r' i = Some C')
              \<and> (\<forall>r' C'. held st' H r' i = Some C' \<longrightarrow> C \<subseteq> C')))
   \<and> (\<exists>st1 H1 lr st0 st st' H. simulate_reduce_scatter n v = Inr (st1, H1, lr)
        \<and> allgather_after st1 n v H1 lr 0 = Inr (st0, H)
        \<and> (\<forall>r i. held st0 H r i = held st1 H1 r i)
        \<and> allgather_after st1 n v H1 lr k = Inr (st, H)
        \<and> allgather_after st1 n v H1 lr (Suc k) = Inr (st', H)
        \<and> (\<forall>r i C. held st H r i = Some C \<longrightarrow>
              (\<exists>C'. held st' H r i = Some C' \<and> C \<subseteq> C')
              \<and> (\<forall>r' C'. held st' H r' i = Some C' \<longrightarrow> C \<subseteq> C')))"
proof (rule conjI)
  assume n: "1 \<le> n"
  show "\<exists>st st' H lr. reduce_scatter_after n v k = Inr (st, H, lr)
        \<and> reduce_scatter_after n v (Suc k) = Inr (st', H, lr)
        \<and> (\<forall>r i C. held st H r i = Some C \<longrightarrow>
              (\<exists>r' C'. held st' H r' i = Some C')
              \<and> (\<forall>r' C'. held st' H r' i = Some C' \<longrightarrow> C \<subseteq> C'))"
    by (rule contributors_grow_phase1 [OF n])
  show "\<exists>st1 H1 lr st0 st st' H. simulate_reduce_scatter n v = Inr (st1, H1, lr)
        \<and> allgather_after st1 n v H1 lr 0 = Inr (st0, H)
        \<and> (\<forall>r i. held st0 H r i = held st1 H1 r i)
        \<and> allgather_after st1 n v H1 lr k = Inr (st, H)
        \<and> allgather_after st1 n v H1 lr (Suc k) = Inr (st', H)
        \<and> (\<forall>r i C. held st H r i = Some C \<longrightarrow>
              (\<exists>C'. held st' H r i = Some C' \<and> C \<subseteq> C')
              \<and> (\<forall>r' C'. held st' H r' i = Some C' \<longrightarrow> C \<subseteq> C'))"
    by (rule contributors_grow_phase2 [OF n])
qed

theorem contributors_only_grow_witness:
  "(1::int) \<le> 3
   \<and> (\<exists>st st' H lr r' C C'. reduce_scatter_after 3 12 0 = Inr (st, H, lr)
         \<and> reduce_scatter_after 3 12 (Suc 0) = Inr (st', H, lr)
         \<and> held st H 0 0 = Some C \<and> held st' H r' 0 = Some C' \<and> C \<subseteq> C')
   \<and> (\<exists>st1 H1 lr st st' H C C'. simulate_reduce_scatter 3 12 = Inr (st1, H1, lr)
         \<and> allgather_after st1 3 12 H1 lr 0 = Inr (st, H)
         \<and> allgather_after st1 3 12 H1 lr (Suc 0) = Inr (st', H)
         \<and> held st H 0 1 = Some C \<and> held st' H 0 1 = Some C' \<and> C \<subseteq> C')"
proof -
  have n: "(1::int) \<le> 3" by simp
  note both = contributors_only_grow [OF n, of 12 0]
  from both [THEN conjunct1] obtain st st' H lr where
    a: "reduce_scatter_after 3 12 0 = Inr (st, H, lr)"
    and b: "reduce_scatter_after 3 12 (Suc 0) = Inr (st', H, lr)"
    and g1: "\<forall>r i C. held st H r i = Some C \<longrightarrow>
              (\<exists>r' C'. held st' H r' i = Some C')
              \<and> (\<forall>r' C'. held st' H r' i = Some C' \<longrightarrow> C \<subseteq> C')"
    by (elim exE conjE)
  from both [THEN conjunct2] obtain st1 H1 lr1 st0 sa sb H2 where
    p: "simulate_reduce_scatter 3 12 = Inr (st1, H1, lr1)"
    and c0: "allgather_after st1 3 12 H1 lr1 0 = Inr (st0, H2)"
    and c: "allgather_after st1 3 12 H1 lr1 0 = Inr (sa, H2)"
    and d: "allgather_after st1 3 12 H1 lr1 (Suc 0) = Inr (sb, H2)"
    and g2: "\<forall>r i C. held sa H2 r i = Some C \<longrightarrow>
              (\<exists>C'. held sb H2 r i = Some C' \<and> C \<subseteq> C')
              \<and> (\<forall>r' C'. held sb H2 r' i = Some C' \<longrightarrow> C \<subseteq> C')"
    by (elim exE conjE)
  have "reduce_scatter_after 3 12 0 = Inr (rs_state 3 (min 0 (nat 3 - 1)), rs_holdings 3, 0)"
    by (rule reduce_scatter_after_eq [OF n])
  then have e: "st = rs_state 3 0" "H = rs_holdings 3" using a by simp_all
  have h0: "held st H 0 0 = Some (ring_span 3 0 0)"
    unfolding e held_rs_state_iff [OF n] by simp
  from g1 [rule_format, OF h0] have x1: "\<exists>r' C'. held st' H r' 0 = Some C'"
    and x2: "\<forall>r' C'. held st' H r' 0 = Some C' \<longrightarrow> ring_span 3 0 0 \<subseteq> C'"
    by (rule conjunct1, rule conjunct2)
  from x1 obtain r' C' where h1: "held st' H r' 0 = Some C'" by (elim exE)
  from x2 h1 have s1: "ring_span 3 0 0 \<subseteq> C'" by (elim allE impE)
  have part1: "\<exists>st st' H lr r' C C'. reduce_scatter_after 3 12 0 = Inr (st, H, lr)
         \<and> reduce_scatter_after 3 12 (Suc 0) = Inr (st', H, lr)
         \<and> held st H 0 0 = Some C \<and> held st' H r' 0 = Some C' \<and> C \<subseteq> C'"
    using a b h0 h1 s1 by (intro exI conjI)
  have "simulate_reduce_scatter 3 12 = Inr (rs_state 3 (nat 3 - 1), rs_holdings 3, 0)"
    by (rule simulate_reduce_scatter_eq [OF n])
  then have f: "st1 = rs_state 3 (nat 3 - 1)" "H1 = rs_holdings 3" "lr1 = 0" using p by simp_all
  from allgather_after_inv [OF n, of 12 0] obtain s0 where
    "allgather_after (rs_state 3 (nat 3 - 1)) 3 12 (rs_holdings 3) 0 0 = Inr (s0, ag_holdings 3)"
    and inv: "ag_inv 3 (min 0 (nat 3 - 1)) s0" by blast
  then have k: "sa = s0" "H2 = ag_holdings 3" using c unfolding f by simp_all
  have inv0: "ag_inv 3 0 sa" using inv unfolding k by simp
  have h2: "held sa H2 0 1 = Some {0..<3}"
    unfolding k(2) held_ag_inv [OF n inv0] by simp
  from g2 [rule_format, OF h2] have "\<exists>C'. held sb H2 0 1 = Some C' \<and> {0..<3} \<subseteq> C'"
    by (rule conjunct1)
  then obtain C2 where h3: "held sb H2 0 1 = Some C2" "{0..<3} \<subseteq> C2" by (elim exE conjE)
  have part2: "\<exists>st1 H1 lr st st' H C C'. simulate_reduce_scatter 3 12 = Inr (st1, H1, lr)
         \<and> allgather_after st1 3 12 H1 lr 0 = Inr (st, H)
         \<and> allgather_after st1 3 12 H1 lr (Suc 0) = Inr (st', H)
         \<and> held st H 0 1 = Some C \<and> held st' H 0 1 = Some C' \<and> C \<subseteq> C'"
    using p c d h2 h3 by (intro exI conjI)
  show ?thesis using n part1 part2 by (intro conjI)
qed

end
